theory Spec2Isabelle
  imports Main
begin

section \<open>JavaScript strings and regular expressions\<close>

text \<open>
  A string is the list of its code units; the model reads the code units below 256.
  A value read from a match object or from an array is a string or \<open>undefined\<close>.
\<close>

datatype jsval = Undefined | Str string

definition ToString :: "jsval \<Rightarrow> string" where
  "ToString v = (case v of Undefined \<Rightarrow> ''undefined'' | Str s \<Rightarrow> s)"

text \<open>
  \<open>String.prototype.trim\<close> strips white space and line terminators from both ends:
  tab, line feed, vertical tab, form feed, carriage return, space and no-break space.
\<close>

definition is_space :: "char \<Rightarrow> bool" where
  "is_space c \<longleftrightarrow>
     c \<in> set [CHR 0x09, CHR 0x0A, CHR 0x0B, CHR 0x0C, CHR 0x0D, CHR 0x20, CHR 0xA0]"

definition trim :: "string \<Rightarrow> string" where
  "trim s = rev (dropWhile is_space (rev (dropWhile is_space s)))"

text \<open>\<open>S.substring(p, q)\<close> for \<open>p \<le> q\<close>.\<close>

definition substring :: "string \<Rightarrow> nat \<Rightarrow> nat \<Rightarrow> string" where
  "substring S p q = take (q - p) (drop p S)"

text \<open>
  Modelled from the spec: the class \<open>NamedRegExp\<close> is not among the sources; the
  parser uses its fields \<open>names\<close> and \<open>no\<close> and its method \<open>exec\<close>. The
  pattern itself is a parameter: \<open>reg r S q\<close> is the regular expression's matcher
  run on the string \<open>S\<close> at the index \<open>q\<close>, which fails or gives the number of code
  units matched and the captures of the named groups, in the order of \<open>names r\<close>.
  A match never runs past the end of the string (\<open>match_at\<close>).
\<close>

record NamedRegExp =
  names :: "string list"
  reg :: "string \<Rightarrow> nat \<Rightarrow> (nat \<times> jsval list) option"

definition match_at :: "NamedRegExp \<Rightarrow> string \<Rightarrow> nat \<Rightarrow> (nat \<times> jsval list) option" where
  "match_at r S q = map_option (\<lambda>(n, caps). (min n (length S - q), caps)) (reg r S q)"

text \<open>
  The object \<open>exec\<close> returns: the index of the match, the length of the matched text,
  and one property for each name of the pattern.
\<close>

record RegMatch =
  index :: nat
  matched :: nat
  props :: "(string \<times> jsval) list"

text \<open>Reading a property of a match object: a name the object lacks reads \<open>undefined\<close>.\<close>

definition field :: "RegMatch \<Rightarrow> string \<Rightarrow> jsval" where
  "field m name = (case map_of (rev (props m)) name of None \<Rightarrow> Undefined | Some v \<Rightarrow> v)"

text \<open>
  \<open>RegExp.prototype.exec\<close> of a global pattern (ECMAScript 5.1, 15.10.6.2): the matcher
  is tried at \<open>lastIndex\<close>, then at each later index up to the length of the string.
\<close>

function search :: "NamedRegExp \<Rightarrow> string \<Rightarrow> nat \<Rightarrow> (nat \<times> nat \<times> jsval list) option" where
  "search r S i =
     (if i > length S then None
      else case match_at r S i of
             None \<Rightarrow> search r S (Suc i)
           | Some (n, caps) \<Rightarrow> Some (i, n, caps))"
  by pat_completeness auto
termination
  by (relation "measure (\<lambda>(r, S, i). Suc (length S) - i)") auto

declare search.simps [simp del]

text \<open>
  \<open>exec r S lastIndex\<close> is \<open>None\<close> for \<open>null\<close> (and \<open>lastIndex\<close> is reset to 0),
  or the match object together with the new \<open>lastIndex\<close>, the end of the match.
\<close>

definition exec :: "NamedRegExp \<Rightarrow> string \<Rightarrow> nat \<Rightarrow> (RegMatch \<times> nat) option" where
  "exec r S lastIndex =
     (case search r S lastIndex of
        None \<Rightarrow> None
      | Some (i, n, caps) \<Rightarrow>
          Some (\<lparr>index = i, matched = n, props = zip (names r) caps\<rparr>, i + n))"

text \<open>
  The loop \<open>while (match = r.exec(S)) ...\<close> visits the successive matches. A match
  of the empty string leaves \<open>lastIndex\<close> where it was, and the loop never ends: the
  result is then \<open>None\<close>.
\<close>

partial_function (option) exec_all :: "NamedRegExp \<Rightarrow> string \<Rightarrow> nat \<Rightarrow> RegMatch list option" where
  "exec_all r S lastIndex =
     (case exec r S lastIndex of
        None \<Rightarrow> Some []
      | Some (m, e) \<Rightarrow> Option.bind (exec_all r S e) (\<lambda>ms. Some (m # ms)))"

declare exec_all.simps [code]

text \<open>
  \<open>r.no\<close> is the pattern without its named groups: it matches where the pattern does
  and captures nothing.
\<close>

definition no :: "NamedRegExp \<Rightarrow> string \<Rightarrow> nat \<Rightarrow> nat option" where
  "no r S q = map_option fst (match_at r S q)"

text \<open>
  \<open>S.split(R)\<close> for a regular expression without capture groups (ECMAScript 5.1,
  15.5.4.14): \<open>p\<close> is the end of the last separator, \<open>q\<close> the index tried next. A
  match that ends at \<open>p\<close> is empty and is passed over. (The limit of \<open>2^32 - 1\<close>
  pieces is beyond the length of any string and is left out.)
\<close>

function split_loop :: "(string \<Rightarrow> nat \<Rightarrow> nat option) \<Rightarrow> string \<Rightarrow> nat \<Rightarrow> nat \<Rightarrow> string list" where
  "split_loop R S p q =
     (if q < length S then
        (case R S q of
           None \<Rightarrow> split_loop R S p (Suc q)
         | Some n \<Rightarrow>
             (let e = min (q + n) (length S) in
              if e = p then split_loop R S p (Suc q)
              else substring S p q # split_loop R S e e))
      else [substring S p (length S)])"
  by pat_completeness auto
termination
  by (relation "measures [\<lambda>(R, S, p, q). length S - q, \<lambda>(R, S, p, q). if p = q then 0 else 1]")
     (auto simp: min_def split: if_splits)

declare split_loop.simps [simp del]

definition split :: "string \<Rightarrow> (string \<Rightarrow> nat \<Rightarrow> nat option) \<Rightarrow> string list" where
  "split S R =
     (if S = [] then (case R S 0 of None \<Rightarrow> [S] | Some n \<Rightarrow> [])
      else split_loop R S 0 0)"

section \<open>The log parser (src/js/parser.js)\<close>

subsection \<open>Timestamps and events\<close>

text \<open>
  Modelled from the spec: the classes \<open>Exception\<close>, \<open>VectorTimestamp\<close> and
  \<open>LogEvent\<close> are not among the sources. An \<open>Exception\<close> is the list of the pieces
  of its message, as \<open>new Exception\<close>, \<open>prepend\<close> and \<open>append\<close> put them together;
  a \<open>LogEvent\<close> is the record of its four constructor arguments. What the parser
  itself does not fix is a parameter, gathered in \<open>env\<close>: the built-in
  \<open>JSON.parse\<close> (the left summand is the text of the error it throws), the constructor
  of \<open>VectorTimestamp\<close> (the left summand is the \<open>Exception\<close> it throws), and the
  bindings of the identifiers that \<open>parseTimestamp\<close> reads but that neither it nor
  \<open>ExecutionParser\<close> declares, \<open>line\<close> and \<open>text\<close>: they are looked up in the
  global scope, and reading an unbound identifier throws a \<open>ReferenceError\<close>.
\<close>

datatype 'g piece = Lit string | LinePlusOne 'g | Code 'g | Italic string

datatype 'g error = ReferenceError string | UserException "'g piece list"

record ('j, 'vt, 'g) env =
  JSON_parse :: "string \<Rightarrow> string + 'j"
  VectorTimestamp_new :: "'j \<Rightarrow> jsval \<Rightarrow> 'g piece list + 'vt"
  scope :: "string \<Rightarrow> 'g option"

record 'vt LogEvent =
  event_text :: jsval
  vectorTimestamp :: 'vt
  lineNum :: nat
  event_fields :: "(string \<times> jsval) list"

text \<open>
  \<open>parseTimestamp(clockString, hostString)\<close>, the function nested in
  \<open>ExecutionParser\<close>. Both handlers build their message from \<open>line + 1\<close> and
  \<open>text\<close>; the line number of the match is held by \<open>ln\<close> and the clock text by
  \<open>clockString\<close>, which the handlers do not read. (\<open>console.log\<close> is left out.)
\<close>

definition parseTimestamp :: "('j, 'vt, 'g) env \<Rightarrow> jsval \<Rightarrow> jsval \<Rightarrow> 'g error + 'vt" where
  "parseTimestamp E clockString hostString =
     (case JSON_parse E (ToString clockString) of
        Inl err \<Rightarrow>
          (case scope E ''line'' of
             None \<Rightarrow> Inl (ReferenceError ''line'')
           | Some l \<Rightarrow>
               (case scope E ''text'' of
                  None \<Rightarrow> Inl (ReferenceError ''text'')
                | Some t \<Rightarrow>
                    Inl (UserException
                      [Lit ''An error occured while trying to parse the vector timestamp on line '',
                       LinePlusOne l, Lit '':'', Code t,
                       Lit (''The error message from the JSON parser reads:'' @ [CHR 0x0A]),
                       Italic err])))
      | Inr clock \<Rightarrow>
          (case VectorTimestamp_new E clock hostString of
             Inr ret \<Rightarrow> Inr ret
           | Inl exception \<Rightarrow>
               (case scope E ''line'' of
                  None \<Rightarrow> Inl (ReferenceError ''line'')
                | Some l \<Rightarrow>
                    (case scope E ''text'' of
                       None \<Rightarrow> Inl (ReferenceError ''text'')
                     | Some t \<Rightarrow>
                         Inl (UserException
                           ([Lit ''An error occured while trying to parse the vector timestamp on line '',
                             LinePlusOne l, Lit ('':'' @ [CHR 0x0A, CHR 0x0A])]
                            @ exception @ [Code t]))))))"

subsection \<open>ExecutionParser\<close>

text \<open>
  The line number of a match: \<open>rawString.substr(0, match.index).match(/\n/g)\<close> is
  \<open>null\<close> when the text before the match has no line feed.
\<close>

definition newlines :: "string \<Rightarrow> nat \<Rightarrow> nat" where
  "newlines raw i = length (filter (\<lambda>c. c = CHR 0x0A) (take i raw))"

definition line_number :: "string \<Rightarrow> nat \<Rightarrow> nat" where
  "line_number raw i = (if newlines raw i > 0 then newlines raw i + 1 else 1)"

text \<open>
  The body of the loop for one match: the event it pushes, or the error
  \<open>parseTimestamp\<close> throws.
\<close>

definition log_event ::
  "('j, 'vt, 'g) env \<Rightarrow> NamedRegExp \<Rightarrow> string \<Rightarrow> RegMatch \<Rightarrow> 'g error + 'vt LogEvent" where
  "log_event E regexp raw m =
     (let ln = line_number raw (index m);
          clock = field m ''clock'';
          host = field m ''host'';
          event = field m ''event'';
          fs = map (\<lambda>name. (name, field m name))
                 (filter (\<lambda>name. \<not> (name = ''clock'' \<or> name = ''host'' \<or> name = ''event''))
                    (names regexp))
      in case parseTimestamp E clock host of
           Inl err \<Rightarrow> Inl err
         | Inr timestamp \<Rightarrow>
             Inr \<lparr>event_text = event, vectorTimestamp = timestamp, lineNum = ln, event_fields = fs\<rparr>)"

record 'vt execution =
  rawString :: string
  label :: jsval
  timestamps :: "'vt list"
  logEvents :: "'vt LogEvent list"

text \<open>
  The loop \<open>while (match = regexp.exec(rawString))\<close> of the constructor. The result is
  \<open>None\<close> when the loop never ends, the error when \<open>parseTimestamp\<close> throws, and
  the execution with the pushed timestamps and events otherwise.
\<close>

partial_function (option) parse_loop ::
  "('j, 'vt, 'g) env \<Rightarrow> NamedRegExp \<Rightarrow> nat \<Rightarrow> 'vt execution \<Rightarrow> ('g error + 'vt execution) option" where
  "parse_loop E regexp lastIndex X =
     (case exec regexp (rawString X) lastIndex of
        None \<Rightarrow> Some (Inr X)
      | Some (m, e) \<Rightarrow>
          (case log_event E regexp (rawString X) m of
             Inl err \<Rightarrow> Some (Inl err)
           | Inr ev \<Rightarrow>
               parse_loop E regexp e
                 (X\<lparr>timestamps := timestamps X @ [vectorTimestamp ev],
                    logEvents := logEvents X @ [ev]\<rparr>)))"

declare parse_loop.simps [code]

text \<open>
  The pattern is handed over with \<open>lastIndex = 0\<close>; a loop that ends leaves it at 0
  again for the next execution.
\<close>

definition ExecutionParser ::
  "('j, 'vt, 'g) env \<Rightarrow> string \<Rightarrow> jsval \<Rightarrow> NamedRegExp \<Rightarrow> ('g error + 'vt execution) option" where
  "ExecutionParser E raw lbl regexp =
     parse_loop E regexp 0 \<lparr>rawString = raw, label = lbl, timestamps = [], logEvents = []\<rparr>"

subsection \<open>LogParser\<close>

text \<open>
  \<open>executions\<close> is an object created by \<open>{}\<close>: the map gives its own properties.
\<close>

record 'vt parser =
  trimmed :: string
  labels :: "jsval list"
  executions :: "string \<rightharpoonup> 'vt execution"

text \<open>Reading an array at an index: beyond the end the value is \<open>undefined\<close>.\<close>

definition at_index :: "jsval list \<Rightarrow> nat \<Rightarrow> jsval" where
  "at_index xs i = (if i < length xs then xs ! i else Undefined)"

text \<open>The loop \<open>for (var i = 0; i < currExecs.length; i++)\<close> of the constructor.\<close>

function segments_loop ::
  "('j, 'vt, 'g) env \<Rightarrow> NamedRegExp \<Rightarrow> string list \<Rightarrow> jsval list \<Rightarrow> nat \<Rightarrow> 'vt parser
     \<Rightarrow> ('g error + 'vt parser) option" where
  "segments_loop E regexp currExecs currLabels i P =
     (if i < length currExecs then
        (if length (trim (currExecs ! i)) > 0 then
           (case ExecutionParser E (currExecs ! i) (at_index currLabels i) regexp of
              None \<Rightarrow> None
            | Some (Inl err) \<Rightarrow> Some (Inl err)
            | Some (Inr X) \<Rightarrow>
                segments_loop E regexp currExecs currLabels (Suc i)
                  (P\<lparr>executions := (executions P)(ToString (at_index currLabels i) \<mapsto> X),
                     labels := labels P @ [at_index currLabels i]\<rparr>))
         else segments_loop E regexp currExecs currLabels (Suc i) P)
      else Some (Inr P))"
  by pat_completeness auto
termination
  by (relation "measure (\<lambda>(E, regexp, currExecs, currLabels, i, P). length currExecs - i)") auto

declare segments_loop.simps [simp del]

text \<open>
  The constructor \<open>LogParser(rawString, delimiter, regexp)\<close>; \<open>delimiter\<close> is
  \<open>None\<close> for \<open>null\<close>. The result is \<open>None\<close> when a loop never ends, the error when
  an \<open>ExecutionParser\<close> throws, and the parser object otherwise.
\<close>

definition LogParser ::
  "('j, 'vt, 'g) env \<Rightarrow> string \<Rightarrow> NamedRegExp option \<Rightarrow> NamedRegExp \<Rightarrow> ('g error + 'vt parser) option" where
  "LogParser E raw delimiter regexp =
     (let S = trim raw;
          P = \<lparr>trimmed = S, labels = [], executions = Map.empty\<rparr>
      in case delimiter of
           Some d \<Rightarrow>
             (let currExecs = split S (no d) in
              case (if ''trace'' \<in> set (names d)
                    then map_option (\<lambda>ms. [Str []] @ map (\<lambda>m. field m ''trace'') ms) (exec_all d S 0)
                    else Some [Str []])
              of None \<Rightarrow> None
               | Some currLabels \<Rightarrow> segments_loop E regexp currExecs currLabels 0 P)
         | None \<Rightarrow>
             (case ExecutionParser E S (Str []) regexp of
                None \<Rightarrow> None
              | Some (Inl err) \<Rightarrow> Some (Inl err)
              | Some (Inr X) \<Rightarrow>
                  Some (Inr (P\<lparr>labels := [Str []], executions := [[] \<mapsto> X]\<rparr>))))"

definition getLabels :: "'vt parser \<Rightarrow> jsval list" where
  "getLabels P = labels P"

text \<open>
  \<open>getLogEvents(label)\<close> reads \<open>this.executions[label]\<close>. The object inherits from
  \<open>Object.prototype\<close>, so a name that is no property of its own may still read as one
  of the inherited properties: the functions of ECMAScript 5.1, 15.2.4, the accessor
  \<open>__proto__\<close> (which reads as \<open>Object.prototype\<close> itself) and the four legacy
  functions of Annex B, which every browser has. None of these values is falsy, and none
  has a property \<open>logEvents\<close>, which therefore reads \<open>undefined\<close>.
\<close>

definition Object_prototype :: "string list" where
  "Object_prototype =
     [''constructor'', ''toString'', ''toLocaleString'', ''valueOf'', ''hasOwnProperty'',
      ''isPrototypeOf'', ''propertyIsEnumerable'', ''__proto__'', ''__defineGetter__'',
      ''__defineSetter__'', ''__lookupGetter__'', ''__lookupSetter__'']"

datatype 'vt found = JNull | JUndefined | JEvents "'vt LogEvent list"

definition getLogEvents :: "'vt parser \<Rightarrow> jsval \<Rightarrow> 'vt found" where
  "getLogEvents P lbl =
     (case executions P (ToString lbl) of
        Some X \<Rightarrow> JEvents (logEvents X)
      | None \<Rightarrow> if ToString lbl \<in> set Object_prototype then JUndefined else JNull)"

section \<open>The spec's reading of the split\<close>

text \<open>
  The spec describes the executions of a log by the delimiter matches: the text is cut
  at every match, the piece before the first match has the label \<open>""\<close>, every other
  piece has the label captured by the match before it, and the blank pieces are dropped.
  \<open>between S p ms\<close> is the list of the pieces of \<open>S\<close> from \<open>p\<close> on, cut at the
  matches \<open>ms\<close>; \<open>spec_executions\<close> pairs the pieces that are not blank with their
  labels.
\<close>

fun between :: "string \<Rightarrow> nat \<Rightarrow> RegMatch list \<Rightarrow> string list" where
  "between S p [] = [substring S p (length S)]"
| "between S p (m # ms) = substring S p (index m) # between S (index m + matched m) ms"

text \<open>
  The delimiter matches at which \<open>split\<close> cuts the text: the successive matches from
  left to right, each as the match object \<open>exec\<close> builds for it; as in \<open>split_loop\<close>,
  \<open>p\<close> is the end of the last match and \<open>q\<close> the index tried next, and an empty match
  at \<open>p\<close> is passed over.
\<close>

function cut_matches :: "NamedRegExp \<Rightarrow> string \<Rightarrow> nat \<Rightarrow> nat \<Rightarrow> RegMatch list" where
  "cut_matches r S p q =
     (if q < length S then
        (case match_at r S q of
           None \<Rightarrow> cut_matches r S p (Suc q)
         | Some (n, caps) \<Rightarrow>
             (let e = min (q + n) (length S) in
              if e = p then cut_matches r S p (Suc q)
              else \<lparr>index = q, matched = n, props = zip (names r) caps\<rparr> # cut_matches r S e e))
      else [])"
  by pat_completeness auto
termination
  by (relation "measures [\<lambda>(r, S, p, q). length S - q, \<lambda>(r, S, p, q). if p = q then 0 else 1]")
     (auto simp: min_def split: if_splits)

declare cut_matches.simps [simp del]

definition delimiter_matches :: "NamedRegExp \<Rightarrow> string \<Rightarrow> RegMatch list" where
  "delimiter_matches r S = cut_matches r S 0 0"

definition blank :: "string \<Rightarrow> bool" where
  "blank seg \<longleftrightarrow> (\<forall>c \<in> set seg. is_space c)"

definition spec_executions :: "string \<Rightarrow> RegMatch list \<Rightarrow> (string \<times> jsval) list" where
  "spec_executions S ms =
     filter (\<lambda>(seg, l). \<not> blank seg)
       (zip (between S 0 ms) (Str [] # map (\<lambda>m. field m ''trace'') ms))"

text \<open>
  The segments the loop still has to visit from the index \<open>i\<close> on, each with the label
  the loop reads for it, and those of them that are not blank.
\<close>

definition pending :: "string list \<Rightarrow> jsval list \<Rightarrow> nat \<Rightarrow> (string \<times> jsval) list" where
  "pending segs lbls i =
     filter (\<lambda>(seg, l). \<not> blank seg) (map (\<lambda>k. (segs ! k, at_index lbls k)) [i..<length segs])"

definition has_key :: "string \<Rightarrow> string \<times> jsval \<Rightarrow> bool" where
  "has_key k p \<longleftrightarrow> ToString (snd p) = k"

section \<open>Vector timestamps\<close>

text \<open>
  Modelled from the spec: the class \<open>VectorTimestamp\<close> is not among the sources. By
  the spec's data model a timestamp is a mapping from host identifiers to counters
  together with the host that owns it. The mapping is kept as the list of its entries,
  as the properties of an object are; \<open>map_of\<close> reads it as a mapping, and a host
  without entry counts as 0.
\<close>

record VectorTimestamp =
  clock :: "(string \<times> nat) list"
  owner :: string

definition count :: "VectorTimestamp \<Rightarrow> string \<Rightarrow> nat" where
  "count t h = (case map_of (clock t) h of None \<Rightarrow> 0 | Some n \<Rightarrow> n)"

text \<open>
  Modelled from the spec: \<open>update(other)\<close> "returns a new timestamp = component-wise
  max(self, other), owner = self's owner": the receiver's entries, each raised to the
  other's count where that is larger, then the other's entries for hosts the receiver
  lacks.
\<close>

definition update :: "VectorTimestamp \<Rightarrow> VectorTimestamp \<Rightarrow> VectorTimestamp" where
  "update self other =
     \<lparr>clock =
        map (\<lambda>(h, x). (h, case map_of (clock other) h of None \<Rightarrow> x | Some y \<Rightarrow> max x y)) (clock self)
        @ filter (\<lambda>(h, y). map_of (clock self) h = None) (clock other),
      owner = owner self\<rparr>"

text \<open>
  Modelled from the spec: \<open>compare(other)\<close> "returns LESS, GREATER, EQUAL, or
  CONCURRENT under the component-wise partial order; missing keys are treated as 0".
\<close>

datatype ordering = LESS | GREATER | EQUAL | CONCURRENT

definition compare :: "VectorTimestamp \<Rightarrow> VectorTimestamp \<Rightarrow> ordering" where
  "compare self other =
     (let hs = map fst (clock self) @ map fst (clock other);
          le = list_all (\<lambda>h. count self h \<le> count other h) hs;
          ge = list_all (\<lambda>h. count other h \<le> count self h) hs
      in if le \<and> ge then EQUAL else if le then LESS else if ge then GREATER else CONCURRENT)"

text \<open>
  Modelled from the spec: the clock text is "a JSON-like textual object mapping
  host-identifier strings to non-negative integers, e.g. \<open>{"A":1,"B":0}\<close>". The text
  is cut into tokens (white space between tokens is skipped; a key is a quoted string
  without escapes; a count is a decimal numeral without sign and without a leading zero)
  and the tokens are read as one object.
\<close>

datatype token = LBrace | RBrace | Colon | Comma | TStr string | TNum nat

definition is_digit :: "char \<Rightarrow> bool" where
  "is_digit c \<longleftrightarrow> c \<in> set ''0123456789''"

definition digits_value :: "string \<Rightarrow> nat" where
  "digits_value ds = foldl (\<lambda>a c. 10 * a + (of_char c - 48)) 0 ds"

function tokens :: "string \<Rightarrow> token list option" where
  "tokens [] = Some []"
| "tokens (c # cs) =
     (if c \<in> set [CHR 0x20, CHR 0x09, CHR 0x0A, CHR 0x0D] then tokens cs
      else if c = CHR ''{'' then map_option ((#) LBrace) (tokens cs)
      else if c = CHR ''}'' then map_option ((#) RBrace) (tokens cs)
      else if c = CHR '':'' then map_option ((#) Colon) (tokens cs)
      else if c = CHR '','' then map_option ((#) Comma) (tokens cs)
      else if c = CHR 0x22 then
        (let k = takeWhile (\<lambda>x. x \<noteq> CHR 0x22 \<and> x \<noteq> CHR 0x5C \<and> (32::nat) \<le> of_char x) cs in
         case drop (length k) cs of
           [] \<Rightarrow> None
         | x # rest \<Rightarrow> if x = CHR 0x22 then map_option ((#) (TStr k)) (tokens rest) else None)
      else if is_digit c then
        (let ds = c # takeWhile is_digit cs in
         if c = CHR ''0'' \<and> length ds > 1 then None
         else map_option ((#) (TNum (digits_value ds))) (tokens (dropWhile is_digit cs)))
      else None)"
  by pat_completeness auto
termination
proof (relation "measure length", goal_cases)
  case (7 c cs k x rest)
  then have "length (x # rest) \<le> length cs"
    by (metis length_drop diff_le_self)
  then show ?case by simp
next
  case (8 c cs ds)
  have "length (dropWhile is_digit cs) \<le> length cs"
    by (rule length_dropWhile_le)
  then show ?case by simp
qed simp_all

fun members :: "token list \<Rightarrow> (string \<times> nat) list option" where
  "members [TStr k, Colon, TNum n, RBrace] = Some [(k, n)]"
| "members (TStr k # Colon # TNum n # Comma # ts) = map_option ((#) (k, n)) (members ts)"
| "members ts = None"

fun object :: "token list \<Rightarrow> (string \<times> nat) list option" where
  "object [LBrace, RBrace] = Some []"
| "object (LBrace # ts) = members ts"
| "object ts = None"

definition parse_clock :: "string \<Rightarrow> (string \<times> nat) list option" where
  "parse_clock clockText = Option.bind (tokens clockText) object"

text \<open>
  Modelled from the spec: \<open>parse(clockText, hostId)\<close> "parses a textual mapping and
  constructs a VectorTimestamp" and "fails with a MalformedClockError" carrying the
  offending text otherwise. Of two entries for one host the later one counts, as in
  JSON: \<open>put\<close> sets the property of an object.
\<close>

datatype clock_error = MalformedClockError string

fun put :: "string \<Rightarrow> nat \<Rightarrow> (string \<times> nat) list \<Rightarrow> (string \<times> nat) list" where
  "put h n [] = [(h, n)]"
| "put h n ((k, v) # kvs) = (if k = h then (k, n) # kvs else (k, v) # put h n kvs)"

definition parse :: "string \<Rightarrow> string \<Rightarrow> clock_error + VectorTimestamp" where
  "parse clockText hostId =
     (case parse_clock clockText of
        None \<Rightarrow> Inl (MalformedClockError clockText)
      | Some kvs \<Rightarrow> Inr \<lparr>clock = fold (\<lambda>(h, n). put h n) kvs [], owner = hostId\<rparr>)"

section \<open>Causality graphs and the motif finder\<close>

text \<open>
  Modelled from the spec: the causality graph, \<open>BuilderGraph\<close> and \<open>MotifFinder\<close> are
  not among the sources (only the call \<open>finder.find\<close> and the construction of a
  \<open>BuilderGraph\<close> are). By the spec's data model a causality graph has one chain of
  events for each host, in encounter order, and parent-to-child edges for same-host
  succession and for cross-host causality; every event has its vector timestamp. A
  builder graph has the same shape (the head sentinels are left out): its chains hold
  the pattern nodes of each host, its edges are the required happens-before relations.
\<close>

type_synonym node = nat

record CausalityGraph =
  chains :: "(string \<times> node list) list"
  edges :: "(node \<times> node) list"
  stamps :: "(node \<times> VectorTimestamp) list"

record BuilderGraph =
  bchains :: "(string \<times> node list) list"
  bedges :: "(node \<times> node) list"

definition chain :: "(string \<times> node list) list \<Rightarrow> string \<Rightarrow> node list" where
  "chain cs h = (case map_of cs h of None \<Rightarrow> [] | Some ns \<Rightarrow> ns)"

text \<open>
  Modelled from the spec: "the causality graph's reachability relation", from ancestor
  to descendant, is the transitive closure of the edges.
\<close>

definition reaches :: "CausalityGraph \<Rightarrow> node \<Rightarrow> node \<Rightarrow> bool" where
  "reaches g x y \<longleftrightarrow> (x, y) \<in> (set (edges g))\<^sup>+"

text \<open>
  Modelled from the spec: a \<open>PatternShapeError\<close> is raised, before the search begins,
  for "a cycle, or an edge referencing a node not in any host chain". A well-shaped
  pattern names every host and every node once.
\<close>

definition pattern_nodes :: "BuilderGraph \<Rightarrow> node list" where
  "pattern_nodes p = concat (map snd (bchains p))"

definition succession :: "BuilderGraph \<Rightarrow> (node \<times> node) list" where
  "succession p = concat (map (\<lambda>(h, ns). zip ns (tl ns)) (bchains p))"

definition well_shaped :: "BuilderGraph \<Rightarrow> bool" where
  "well_shaped p \<longleftrightarrow>
     distinct (map fst (bchains p)) \<and> distinct (pattern_nodes p)
     \<and> list_all (\<lambda>(a, b). a \<in> set (pattern_nodes p) \<and> b \<in> set (pattern_nodes p)) (bedges p)
     \<and> list_all (\<lambda>n. (n, n) \<notin> (set (bedges p @ succession p))\<^sup>+) (pattern_nodes p)"

text \<open>
  Modelled from the spec: a pattern edge "is satisfied only if the mapped real nodes
  are related by the causality graph's reachability relation in the same direction".
  An assignment lists the pattern nodes mapped so far, each with its real node.
\<close>

definition consistent :: "CausalityGraph \<Rightarrow> BuilderGraph \<Rightarrow> (node \<times> node) list \<Rightarrow> bool" where
  "consistent g p asg \<longleftrightarrow>
     list_all (\<lambda>(a, b). case map_of asg a of
                          None \<Rightarrow> True
                        | Some x \<Rightarrow> (case map_of asg b of None \<Rightarrow> True | Some y \<Rightarrow> reaches g x y))
       (bedges p)"

text \<open>
  Modelled from the spec: the search aligns the pattern chain of each host, in order,
  with an order-preserving subsequence of the chain of the same host in the causality
  graph, and goes back to the next candidate when a later node finds none ("backtracking
  is required"; "first found under the deterministic order"). \<open>us\<close> are the pattern
  nodes of the current host still to be mapped, \<open>rs\<close> the real nodes of that host after
  the last one chosen, \<open>hs\<close> the pattern chains of the hosts still to come.
\<close>

fun align ::
  "CausalityGraph \<Rightarrow> BuilderGraph \<Rightarrow> node list \<Rightarrow> node list \<Rightarrow> (string \<times> node list) list
     \<Rightarrow> (node \<times> node) list \<Rightarrow> (node \<times> node) list option" where
  "align g p [] rs [] asg = Some asg"
| "align g p [] rs ((h, us) # hs) asg = align g p us (chain (chains g) h) hs asg"
| "align g p (u # us) [] hs asg = None"
| "align g p (u # us) (r # rs) hs asg =
     (if consistent g p ((u, r) # asg) then
        (case align g p us rs hs ((u, r) # asg) of
           Some m \<Rightarrow> Some m
         | None \<Rightarrow> align g p (u # us) rs hs asg)
      else align g p (u # us) rs hs asg)"

datatype motif_error = NoMatchError | PatternShapeError

record Motif =
  matchedNodeIds :: "node list"
  matchedEdges :: "(node \<times> node) list"

text \<open>
  Modelled from the spec: \<open>find(causalityGraph, builderGraph)\<close> returns the matched
  nodes and the matched edges "as node-id pairs", "or fails with NoMatchError if no
  satisfying mapping exists".
\<close>

definition MotifFinder_find :: "CausalityGraph \<Rightarrow> BuilderGraph \<Rightarrow> motif_error + Motif" where
  "MotifFinder_find g p =
     (if \<not> well_shaped p then Inl PatternShapeError
      else case align g p [] [] (bchains p) [] of
             None \<Rightarrow> Inl NoMatchError
           | Some asg \<Rightarrow>
               Inr \<lparr>matchedNodeIds = map snd asg,
                    matchedEdges =
                      List.map_filter
                        (\<lambda>(a, b). case map_of asg a of
                                     None \<Rightarrow> None
                                   | Some x \<Rightarrow> map_option (Pair x) (map_of asg b))
                        (bedges p)\<rparr>)"

text \<open>
  An assignment respects the hosts when every pattern node is mapped to a node of the
  chain of its own host.
\<close>

definition same_host :: "CausalityGraph \<Rightarrow> BuilderGraph \<Rightarrow> (node \<times> node) list \<Rightarrow> bool" where
  "same_host g p asg \<longleftrightarrow>
     (\<forall>(u, r) \<in> set asg. \<exists>h. u \<in> set (chain (bchains p) h) \<and> r \<in> set (chain (chains g) h))"

text \<open>
  Two causality graphs on the hosts \<open>A\<close> and \<open>B\<close>. In both the timestamp of node 3
  is above that of node 1; only the second has an edge from node 1 to node 3. The pattern
  asks for a node on \<open>A\<close> that happens before a node on \<open>B\<close>.
\<close>

definition unlinked :: CausalityGraph where
  "unlinked =
     \<lparr>chains = [(''A'', [1, 2]), (''B'', [3])],
      edges = [(1, 2)],
      stamps = [(1, \<lparr>clock = [(''A'', 1)], owner = ''A''\<rparr>),
                (2, \<lparr>clock = [(''A'', 2)], owner = ''A''\<rparr>),
                (3, \<lparr>clock = [(''A'', 1), (''B'', 1)], owner = ''B''\<rparr>)]\<rparr>"

definition linked :: CausalityGraph where
  "linked = unlinked\<lparr>edges := [(1, 2), (1, 3)]\<rparr>"

text \<open>A third graph, in which the only edge between the hosts goes from \<open>B\<close> to \<open>A\<close>.\<close>

definition reversed :: CausalityGraph where
  "reversed = unlinked\<lparr>edges := [(1, 2), (3, 1)]\<rparr>"

definition send_receive :: BuilderGraph where
  "send_receive = \<lparr>bchains = [(''A'', [10]), (''B'', [11])], bedges = [(10, 11)]\<rparr>"

section \<open>Concrete patterns and a concrete environment\<close>

text \<open>
  The delimiter pattern \<open>=(?<trace>[a-z]*)=\<close>: the greedy run of lower-case letters
  after the first \<open>=\<close> must be followed by \<open>=\<close>.
\<close>

definition is_lower :: "char \<Rightarrow> bool" where
  "is_lower c \<longleftrightarrow> c \<in> set ''abcdefghijklmnopqrstuvwxyz''"

definition trace_delimiter :: NamedRegExp where
  "trace_delimiter =
     \<lparr>names = [''trace''],
      reg = (\<lambda>S q. case drop q S of
                      [] \<Rightarrow> None
                    | c # cs \<Rightarrow>
                        if c = CHR ''='' then
                          (let w = takeWhile is_lower cs in
                           case drop (length w) cs of
                             [] \<Rightarrow> None
                           | x # rest \<Rightarrow> if x = CHR ''='' then Some (length w + 2, [Str w]) else None)
                        else None)\<rparr>"

text \<open>The same delimiter without the name of its group, \<open>=(?:[a-z]*)=\<close>.\<close>

definition plain_delimiter :: NamedRegExp where
  "plain_delimiter = trace_delimiter\<lparr>names := []\<rparr>"

text \<open>
  The event pattern \<open>(?<host>\S+) (?<clock>\S+) (?<event>.*)\<close>, and the same pattern
  without its last group, \<open>(?<host>\S+) (?<clock>\S+)\<close>. A greedy \<open>\S+\<close> takes every
  character up to the next white space, which must be a space; \<open>.\<close> matches any
  character but a line terminator.
\<close>

definition is_dot :: "char \<Rightarrow> bool" where
  "is_dot c \<longleftrightarrow> c \<noteq> CHR 0x0A \<and> c \<noteq> CHR 0x0D"

definition word_then_space :: "string \<Rightarrow> (string \<times> string) option" where
  "word_then_space S =
     (let w = takeWhile (\<lambda>c. \<not> is_space c) S in
      if w = [] then None
      else case drop (length w) S of
             [] \<Rightarrow> None
           | x # rest \<Rightarrow> if x = CHR 0x20 then Some (w, rest) else None)"

definition host_clock_event :: NamedRegExp where
  "host_clock_event =
     \<lparr>names = [''host'', ''clock'', ''event''],
      reg = (\<lambda>S q. case word_then_space (drop q S) of
                      None \<Rightarrow> None
                    | Some (h, r) \<Rightarrow>
                        (case word_then_space r of
                           None \<Rightarrow> None
                         | Some (c, r') \<Rightarrow>
                             (let e = takeWhile is_dot r' in
                              Some (length h + 1 + length c + 1 + length e, [Str h, Str c, Str e]))))\<rparr>"

definition host_clock :: NamedRegExp where
  "host_clock =
     \<lparr>names = [''host'', ''clock''],
      reg = (\<lambda>S q. case word_then_space (drop q S) of
                      None \<Rightarrow> None
                    | Some (h, r) \<Rightarrow>
                        (let c = takeWhile (\<lambda>c. \<not> is_space c) r in
                         if c = [] then None else Some (length h + 1 + length c, [Str h, Str c])))\<rparr>"

text \<open>
  An environment for running the parser on concrete logs: \<open>JSON.parse\<close> on the texts of
  flat objects with counts (any other text counts as a syntax error here; the runs below
  give it no other JSON text), a timestamp constructor that never throws and keeps its
  two arguments, and a global scope that binds neither \<open>line\<close> nor \<open>text\<close>, as in
  the sources.
\<close>

definition browser :: "((string \<times> nat) list, (string \<times> nat) list \<times> jsval, jsval) env" where
  "browser =
     \<lparr>JSON_parse = (\<lambda>s. case parse_clock s of
                            None \<Rightarrow> Inl ''SyntaxError''
                          | Some kvs \<Rightarrow> Inr kvs),
      VectorTimestamp_new = (\<lambda>kvs h. Inr (kvs, h)),
      scope = (\<lambda>name. None)\<rparr>"

text \<open>Two logs for running the parser.\<close>

definition log1 :: string where
  \<open>log1 = ''a {"a":1} hello'' @ [CHR 0x0A] @ ''b {"b":1,"a":1} world''\<close>

definition log2 :: string where
  \<open>log2 = ''  =x='' @ [CHR 0x0A] @ ''a {"a":1} e1'' @ [CHR 0x0A] @ ''=y==x=''
            @ [CHR 0x0A] @ ''b {"b":1} e2'' @ [CHR 0x0A]\<close>

text \<open>A log whose second line has a clock that is no JSON text.\<close>

definition log3 :: string where
  \<open>log3 = ''a {"a":1} ok'' @ [CHR 0x0A] @ ''b {bad broken''\<close>

section \<open>The motif builder's host list (src/js/graphBuilder.js)\<close>

text \<open>
  A \<open>GraphBuilderHost\<close> is a JavaScript object: \<open>indexOf\<close> compares hosts by
  identity. The model gives every host object the number of host objects created before
  it (\<open>hid\<close>) as its identity; \<open>num\<close> is the second constructor argument,
  \<open>this.hosts.length\<close> at the time of creation. The drawing state (the SVG elements,
  the colour list, the search box) does not influence the host list and is left out;
  the calls into jQuery, \<open>GraphBuilderHost\<close> and the serializer, which are not among
  the sources, are taken to return.
\<close>

record GraphBuilderHost =
  hid :: nat
  num :: nat

record GraphBuilder =
  hosts :: "GraphBuilderHost list"
  created :: nat

datatype exn = Exception string

definition MAX_HOSTS :: nat where
  "MAX_HOSTS = 5"

text \<open>
  \<open>addHost\<close> returns the exception it throws, if any, together with the builder as the
  call leaves it.
\<close>

definition addHost :: "GraphBuilder \<Rightarrow> exn option \<times> GraphBuilder" where
  "addHost g =
     (if length (hosts g) \<ge> MAX_HOSTS
      then (Some (Exception ''GraphBuilder.prototype.addHost: no new hosts may be added''), g)
      else (None, g\<lparr>hosts := hosts g @ [\<lparr>hid = created g, num = length (hosts g)\<rparr>],
                     created := Suc (created g)\<rparr>))"

text \<open>\<open>Array.prototype.indexOf\<close>: the first index holding the argument, or \<open>-1\<close>.\<close>

fun indexOf_from :: "'a list \<Rightarrow> 'a \<Rightarrow> int \<Rightarrow> int" where
  "indexOf_from [] a i = -1"
| "indexOf_from (x # xs) a i = (if x = a then i else indexOf_from xs a (i + 1))"

definition indexOf :: "'a list \<Rightarrow> 'a \<Rightarrow> int" where
  "indexOf xs a = indexOf_from xs a 0"

text \<open>
  \<open>arr.splice(start, 1)\<close>: a negative \<open>start\<close> counts from the end of the array,
  and at most the elements that exist are deleted.
\<close>

definition splice1 :: "'a list \<Rightarrow> int \<Rightarrow> 'a list" where
  "splice1 xs start =
     (let len = int (length xs);
          s = (if start < 0 then max (len + start) 0 else min start len);
          k = min 1 (len - s)
      in take (nat s) xs @ drop (nat (s + k)) xs)"

text \<open>
  \<open>Array.remove(arr, arg)\<close> for an argument that is no function (a host object never
  is one): \<open>arr.splice(arr.indexOf(arg), 1)\<close>.
\<close>

definition Array_remove :: "'a list \<Rightarrow> 'a \<Rightarrow> 'a list" where
  "Array_remove arr arg = splice1 arr (indexOf arr arg)"

definition removeHost :: "GraphBuilder \<Rightarrow> GraphBuilderHost \<Rightarrow> GraphBuilder" where
  "removeHost g host = g\<lparr>hosts := Array_remove (hosts g) host\<rparr>"

lemma indexOf_from_range:
  "indexOf_from xs a i = -1 \<or> (i \<le> indexOf_from xs a i \<and> indexOf_from xs a i < i + int (length xs))"
  proof (induction xs arbitrary: i)
  case Nil
  show ?case by simp
next
  case (Cons x xs)
  from Cons [of "i + 1"] show ?case by auto
qed

lemma length_splice1_le: "length (splice1 xs start) \<le> length xs"
  by (auto simp: splice1_def Let_def min_def max_def)

lemma length_splice1_less:
  assumes "xs \<noteq> []" and "start = -1 \<or> (0 \<le> start \<and> start < int (length xs))"
  shows "length (splice1 xs start) < length xs"
  using assms by (cases xs) (auto simp: splice1_def Let_def min_def max_def)

lemma length_Array_remove_le: "length (Array_remove xs a) \<le> length xs"
  by (simp add: Array_remove_def length_splice1_le)

lemma length_Array_remove_less: "xs \<noteq> [] \<Longrightarrow> length (Array_remove xs a) < length xs"
  unfolding Array_remove_def indexOf_def
  using indexOf_from_range [of xs a 0] by (intro length_splice1_less) auto

text \<open>
  \<open>clear\<close>: the loop removes the last host while there is one, then two hosts are added.
\<close>

function clear_loop :: "GraphBuilder \<Rightarrow> GraphBuilder" where
  "clear_loop g =
     (if length (hosts g) > 0 then clear_loop (removeHost g (last (hosts g))) else g)"
  by pat_completeness auto
termination
  by (relation "measure (\<lambda>g. length (hosts g))")
     (auto simp: removeHost_def length_Array_remove_less)

declare clear_loop.simps [simp del]

definition clear :: "GraphBuilder \<Rightarrow> exn option \<times> GraphBuilder" where
  "clear g =
     (case addHost (clear_loop g) of
        (Some e, g') \<Rightarrow> (Some e, g')
      | (None, g') \<Rightarrow> addHost g')"

text \<open>The constructor: an empty host list, then \<open>addHost\<close> twice.\<close>

definition GraphBuilder_new :: "exn option \<times> GraphBuilder" where
  "GraphBuilder_new =
     (case addHost \<lparr>hosts = [], created = 0\<rparr> of
        (Some e, g') \<Rightarrow> (Some e, g')
      | (None, g') \<Rightarrow> addHost g')"

datatype builder_op = AddHost | RemoveHost GraphBuilderHost | Clear

text \<open>
  One operation on the builder. An exception thrown by a handler leaves the builder
  object as it was at the throw; later operations go on from there.
\<close>

fun step :: "GraphBuilder \<Rightarrow> builder_op \<Rightarrow> GraphBuilder" where
  "step g AddHost = snd (addHost g)"
| "step g (RemoveHost h) = removeHost g h"
| "step g Clear = snd (clear g)"

definition run :: "builder_op list \<Rightarrow> GraphBuilder" where
  "run ops = foldl step (snd GraphBuilder_new) ops"

section \<open>Properties of regular expression matching\<close>

lemma match_at_bound:
  "match_at r S q = Some (n, caps) \<Longrightarrow> q \<le> length S \<Longrightarrow> q + n \<le> length S"
  by (auto simp: match_at_def)

lemma search_Some:
  "search r S i = Some (j, n, caps) \<Longrightarrow>
     i \<le> j \<and> j \<le> length S \<and> match_at r S j = Some (n, caps)
     \<and> (\<forall>k. i \<le> k \<and> k < j \<longrightarrow> match_at r S k = None)"
proof (induction r S i rule: search.induct)
  case (1 r S i)
  show ?case
  proof (cases "match_at r S i")
    case None
    with "1.prems" have le: "\<not> length S < i" and rec: "search r S (Suc i) = Some (j, n, caps)"
      by (auto simp: search.simps [of r S i] split: if_splits)
    from "1.IH" [OF le None rec] have ih: "Suc i \<le> j" "j \<le> length S"
      "match_at r S j = Some (n, caps)" "\<And>k. Suc i \<le> k \<Longrightarrow> k < j \<Longrightarrow> match_at r S k = None"
      by auto
    have "match_at r S k = None" if "i \<le> k" "k < j" for k
    proof (cases "k = i")
      case True
      with None show ?thesis by simp
    next
      case False
      with that have "Suc i \<le> k" by simp
      with that ih(4) show ?thesis by simp
    qed
    with ih show ?thesis by simp
  next
    case (Some a)
    with "1.prems" show ?thesis
      by (auto simp: search.simps [of r S i] split: if_splits)
  qed
qed

lemma search_None:
  "search r S i = None \<Longrightarrow> i \<le> k \<Longrightarrow> k \<le> length S \<Longrightarrow> match_at r S k = None"
proof (induction r S i rule: search.induct)
  case (1 r S i)
  from "1.prems" have le: "\<not> length S < i" by simp
  from "1.prems" le have none: "match_at r S i = None" and rec: "search r S (Suc i) = None"
    by (auto simp: search.simps [of r S i] split: option.splits)
  show ?case
  proof (cases "k = i")
    case True
    with none show ?thesis by simp
  next
    case False
    with "1.prems" have "Suc i \<le> k" by simp
    from "1.IH" [OF le none rec this "1.prems"(3)] show ?thesis .
  qed
qed

lemma exec_Some:
  assumes "exec r S li = Some (m, e)"
  shows "li \<le> index m" and "index m \<le> length S" and "e = index m + matched m"
    and "e \<le> length S"
    and "\<exists>caps. match_at r S (index m) = Some (matched m, caps) \<and> props m = zip (names r) caps"
    and "\<And>k. li \<le> k \<Longrightarrow> k < index m \<Longrightarrow> match_at r S k = None"
proof -
  from assms obtain j n caps where s: "search r S li = Some (j, n, caps)"
    and m: "m = \<lparr>index = j, matched = n, props = zip (names r) caps\<rparr>" and e: "e = j + n"
    by (auto simp: exec_def split: option.splits)
  note f = search_Some [OF s]
  from f m show "li \<le> index m" "index m \<le> length S" by simp_all
  from m e show "e = index m + matched m" by simp
  from f e match_at_bound [of r S j n caps] show "e \<le> length S" by simp
  from f m show "\<exists>caps. match_at r S (index m) = Some (matched m, caps) \<and> props m = zip (names r) caps"
    by simp
  fix k assume "li \<le> k" "k < index m"
  with f m show "match_at r S k = None" by simp
qed

lemma exec_None:
  "exec r S li = None \<Longrightarrow> li \<le> k \<Longrightarrow> k \<le> length S \<Longrightarrow> match_at r S k = None"
  by (auto simp: exec_def split: option.splits dest: search_None)

lemma exec_all_None_step: "exec r S li = None \<Longrightarrow> exec_all r S li = Some []"
  by (subst exec_all.simps) simp

lemma exec_all_Some_step:
  "exec r S li = Some (m, e) \<Longrightarrow>
     exec_all r S li = Option.bind (exec_all r S e) (\<lambda>ms. Some (m # ms))"
  by (subst exec_all.simps) simp

lemma exec_all_stuck: "exec r S li = Some (m, li) \<Longrightarrow> exec_all r S li = None"
proof (rule ccontr)
  assume ex: "exec r S li = Some (m, li)" and "exec_all r S li \<noteq> None"
  then obtain ms where ms: "exec_all r S li = Some ms" by auto
  from exec_all_Some_step [OF ex] ms have "Some ms = Some (m # ms)" by simp
  then show False by simp
qed

lemma exec_all_cases:
  assumes "exec_all r S li = Some ms"
  obtains (stop) "exec r S li = None" "ms = []"
  | (more) m e ms' where "exec r S li = Some (m, e)" "ms = m # ms'" "exec_all r S e = Some ms'"
      "li < e"
proof (cases "exec r S li")
  case None
  with assms exec_all_None_step [OF None] show ?thesis by (auto intro: stop)
next
  case (Some a)
  obtain m e where a: "a = (m, e)" by (cases a)
  with Some have ex: "exec r S li = Some (m, e)" by simp
  from exec_all_Some_step [OF ex] assms obtain ms' where
    "exec_all r S e = Some ms'" "ms = m # ms'"
    by (cases "exec_all r S e") auto
  moreover have "li < e"
  proof -
    from exec_Some(1,3) [OF ex] have "li \<le> e" by simp
    moreover have "e \<noteq> li" using exec_all_stuck [of r S li m] ex assms by auto
    ultimately show ?thesis by simp
  qed
  ultimately show ?thesis using ex by (auto intro: more)
qed


lemma exec_at:
  assumes "match_at r S li = Some (n, caps)" and "li \<le> length S"
  shows "exec r S li = Some (\<lparr>index = li, matched = n, props = zip (names r) caps\<rparr>, li + n)"
  using assms by (simp add: exec_def search.simps [of r S li])

lemma split_loop_skip:
  assumes "\<And>k. q \<le> k \<Longrightarrow> k < j \<Longrightarrow> R S k = None" and "q \<le> j" and "j \<le> length S"
  shows "split_loop R S p q = split_loop R S p j"
  using assms
proof (induction "j - q" arbitrary: q)
  case 0
  then show ?case by simp
next
  case (Suc d)
  then have "q < length S" "R S q = None" by auto
  then have "split_loop R S p q = split_loop R S p (Suc q)"
    by (subst split_loop.simps) simp
  also have "\<dots> = split_loop R S p j"
    using Suc by (intro Suc.hyps(1)) auto
  finally show ?case .
qed

lemma split_loop_end: "split_loop R S p (length S) = [substring S p (length S)]"
  by (subst split_loop.simps) simp

lemma split_loop_between:
  "exec_all r S p = Some ms \<Longrightarrow> p \<le> length S \<Longrightarrow> split_loop (no r) S p p = between S p ms"
proof (induction "length S - p" arbitrary: p ms rule: less_induct)
  case less
  from less.prems(1) show ?case
  proof (cases rule: exec_all_cases)
    case stop
    then have "\<And>k. p \<le> k \<Longrightarrow> k < length S \<Longrightarrow> no r S k = None"
      by (simp add: no_def exec_None [of r S p])
    from split_loop_skip [of p "length S" "no r" S p, OF this less.prems(2)]
    show ?thesis using stop by (simp add: split_loop_end)
  next
    case (more m e ms')
    note ex = exec_Some [OF more(1)]
    from ex(5) obtain caps where at: "match_at r S (index m) = Some (matched m, caps)" by auto
    have j: "index m < length S"
    proof (rule ccontr)
      assume "\<not> index m < length S"
      with ex(2) have eq: "index m = length S" by simp
      with ex(3,4) have e: "e = length S" "matched m = 0" by simp_all
      from exec_at [of r S "length S" "matched m" caps] at eq e
      have "\<exists>m'. exec r S e = Some (m', e)" by simp
      then have "exec_all r S e = None" by (auto dest: exec_all_stuck)
      with more(3) show False by simp
    qed
    have skip: "split_loop (no r) S p p = split_loop (no r) S p (index m)"
      using ex(1,2,6) by (intro split_loop_skip) (simp_all add: no_def)
    have cut: "split_loop (no r) S p (index m) = substring S p (index m) # split_loop (no r) S e e"
      using j at ex(3,4) more(4)
      by (subst split_loop.simps) (simp add: no_def Let_def)
    have "split_loop (no r) S e e = between S e ms'"
      using more(3,4) ex(4) less.prems(2) by (intro less.hyps) auto
    with skip cut more(2) ex(3) show ?thesis by simp
  qed
qed

lemma split_between:
  assumes "exec_all r S 0 = Some ms"
  shows "split S (no r) = between S 0 ms"
proof (cases "S = []")
  case False
  with split_loop_between [OF assms] show ?thesis by (simp add: split_def)
next
  case True
  from assms show ?thesis
  proof (cases rule: exec_all_cases)
    case stop
    with True exec_None [of r S 0 0] show ?thesis
      by (simp add: split_def no_def substring_def)
  next
    case (more m e ms')
    from exec_Some(3,4) [OF more(1)] True more(4) show ?thesis by simp
  qed
qed


lemma field_absent:
  assumes "props m = zip ns caps" and "name \<notin> set ns"
  shows "field m name = Undefined"
proof -
  from assms(2) have "name \<notin> fst ` set (zip ns caps)"
    by (auto dest: set_zip_leftD)
  then have "map_of (rev (zip ns caps)) name = None"
    by (simp add: map_of_eq_None_iff)
  with assms(1) show ?thesis by (simp add: field_def)
qed











section \<open>Properties of \<open>trim\<close> and of the execution parser\<close>

lemma dropWhile_space_Nil: "dropWhile is_space s = [] \<longleftrightarrow> blank s"
  by (simp add: blank_def dropWhile_eq_Nil_conv)

lemma trim_Nil: "trim s = [] \<longleftrightarrow> blank s"
proof -
  have "trim s = [] \<longleftrightarrow> blank (dropWhile is_space s)"
    by (simp add: trim_def dropWhile_eq_Nil_conv blank_def)
  also have "\<dots> \<longleftrightarrow> dropWhile is_space s = []"
  proof
    assume b: "blank (dropWhile is_space s)"
    show "dropWhile is_space s = []"
    proof (rule ccontr)
      assume ne: "dropWhile is_space s \<noteq> []"
      then have "\<not> is_space (hd (dropWhile is_space s))" by (rule hd_dropWhile)
      moreover from ne have "hd (dropWhile is_space s) \<in> set (dropWhile is_space s)" by simp
      ultimately show False using b by (auto simp: blank_def)
    qed
  next
    assume "dropWhile is_space s = []"
    then show "blank (dropWhile is_space s)" by (simp only: blank_def) simp
  qed
  also have "\<dots> \<longleftrightarrow> blank s" by (rule dropWhile_space_Nil)
  finally show ?thesis .
qed

lemma trim_length_pos: "0 < length (trim s) \<longleftrightarrow> \<not> blank s"
  using trim_Nil [of s] by simp

lemma last_dropWhile: "dropWhile P xs \<noteq> [] \<Longrightarrow> last (dropWhile P xs) = last xs"
  by (metis last_appendR takeWhile_dropWhile_id)

lemma trim_ends:
  assumes "trim s \<noteq> []"
  shows "\<not> is_space (hd (trim s))" and "\<not> is_space (last (trim s))"
proof -
  define u where "u = dropWhile is_space s"
  define v where "v = dropWhile is_space (rev u)"
  have t: "trim s = rev v" by (simp add: trim_def u_def v_def)
  with assms have v: "v \<noteq> []" by simp
  then have u: "u \<noteq> []" by (auto simp: v_def)
  from v have "\<not> is_space (hd v)" unfolding v_def by (rule hd_dropWhile)
  with v t show "\<not> is_space (last (trim s))" by (simp add: last_rev)
  from v have "last v = last (rev u)" unfolding v_def by (rule last_dropWhile)
  with u have "last v = hd u" by (simp add: last_rev)
  moreover from u have "\<not> is_space (hd u)" unfolding u_def by (rule hd_dropWhile)
  ultimately show "\<not> is_space (hd (trim s))" using v t by (simp add: hd_rev)
qed

lemma trim_trim: "trim (trim s) = trim s"
proof (cases "trim s = []")
  case True
  have "trim [] = []" by (simp add: trim_def)
  with True show ?thesis by simp
next
  case False
  from trim_ends [OF False] False
  have a: "dropWhile is_space (trim s) = trim s"
    by (cases "trim s") auto
  from trim_ends [OF False] False
  have b: "dropWhile is_space (rev (trim s)) = rev (trim s)"
    by (cases "rev (trim s)") (auto simp: last_rev [symmetric] hd_rev)
  show ?thesis
    by (subst trim_def) (simp add: a b)
qed

lemma line_number_eq: "line_number raw i = Suc (newlines raw i)"
  by (simp add: line_number_def)

lemma newlines_mono: "i \<le> j \<Longrightarrow> newlines raw i \<le> newlines raw j"
proof -
  assume "i \<le> j"
  then have "take j raw = take i raw @ take (j - i) (drop i raw)"
    by (metis le_add_diff_inverse take_add)
  then show ?thesis by (simp add: newlines_def)
qed

lemma exec_all_sorted:
  "exec_all r S li = Some ms \<Longrightarrow> sorted (map index ms) \<and> (\<forall>m \<in> set ms. li \<le> index m)"
proof (induction "Suc (length S) - li" arbitrary: li ms rule: less_induct)
  case less
  from less.prems show ?case
  proof (cases rule: exec_all_cases)
    case stop
    then show ?thesis by simp
  next
    case (more m e ms')
    note ex = exec_Some [OF more(1)]
    have "sorted (map index ms') \<and> (\<forall>m \<in> set ms'. e \<le> index m)"
      using more(3,4) ex(4) by (intro less.hyps) auto
    with more(2) ex(1,3) show ?thesis by fastforce
  qed
qed

lemma parse_loop_Inr:
  "parse_loop E re li X = Some y \<Longrightarrow>
     (\<forall>Y. y = Inr Y \<longrightarrow>
        (\<exists>ms evs. exec_all re (rawString X) li = Some ms
           \<and> map (log_event E re (rawString X)) ms = map Inr evs
           \<and> Y = X\<lparr>timestamps := timestamps X @ map vectorTimestamp evs,
                    logEvents := logEvents X @ evs\<rparr>))"
proof (induction rule: parse_loop.raw_induct [rotated 1, consumes 1])
  case (1 parse_loop E re li X y)
  show ?case
  proof (cases "exec re (rawString X) li")
    case None
    with 1(2) have "y = Inr X" by simp
    moreover have "exec_all re (rawString X) li = Some []"
      using None by (rule exec_all_None_step)
    ultimately show ?thesis by simp
  next
    case (Some a)
    obtain m e where a: "a = (m, e)" by (cases a)
    with Some have ex: "exec re (rawString X) li = Some (m, e)" by simp
    show ?thesis
    proof (cases "log_event E re (rawString X) m")
      case (Inl err)
      with 1(2) ex show ?thesis by auto
    next
      case (Inr ev)
      define X' where "X' = X\<lparr>timestamps := timestamps X @ [vectorTimestamp ev],
          logEvents := logEvents X @ [ev]\<rparr>"
      from 1(2) ex Inr have rec: "parse_loop E re e X' = Some y" by (simp add: X'_def)
      show ?thesis
      proof (intro allI impI)
        fix Y assume y: "y = Inr Y"
        from 1(1) [OF rec] y obtain ms evs where
          ms: "exec_all re (rawString X') e = Some ms"
          and evs: "map (log_event E re (rawString X')) ms = map Inr evs"
          and Y: "Y = X'\<lparr>timestamps := timestamps X' @ map vectorTimestamp evs,
                    logEvents := logEvents X' @ evs\<rparr>"
          by blast
        have raw: "rawString X' = rawString X" by (simp add: X'_def)
        from ms raw exec_all_Some_step [OF ex]
        have "exec_all re (rawString X) li = Some (m # ms)" by simp
        moreover from evs raw Inr
        have "map (log_event E re (rawString X)) (m # ms) = map Inr (ev # evs)" by simp
        moreover from Y have "Y = X\<lparr>timestamps := timestamps X @ map vectorTimestamp (ev # evs),
                    logEvents := logEvents X @ (ev # evs)\<rparr>" by (simp add: X'_def)
        ultimately show "\<exists>ms evs. exec_all re (rawString X) li = Some ms
           \<and> map (log_event E re (rawString X)) ms = map Inr evs
           \<and> Y = X\<lparr>timestamps := timestamps X @ map vectorTimestamp evs,
                    logEvents := logEvents X @ evs\<rparr>" by blast
      qed
    qed
  qed
qed

lemma parse_loop_Inl:
  "parse_loop E re li X = Some y \<Longrightarrow>
     (\<forall>err. y = Inl err \<longrightarrow> (\<exists>m. log_event E re (rawString X) m = Inl err))"
proof (induction rule: parse_loop.raw_induct [rotated 1, consumes 1])
  case (1 parse_loop E re li X y)
  show ?case
  proof (cases "exec re (rawString X) li")
    case None
    with 1(2) show ?thesis by auto
  next
    case (Some a)
    obtain m e where a: "a = (m, e)" by (cases a)
    with Some have ex: "exec re (rawString X) li = Some (m, e)" by simp
    show ?thesis
    proof (cases "log_event E re (rawString X) m")
      case (Inl err)
      with 1(2) ex show ?thesis by auto
    next
      case (Inr ev)
      with 1(2) ex have "parse_loop E re e (X\<lparr>timestamps := timestamps X @ [vectorTimestamp ev],
          logEvents := logEvents X @ [ev]\<rparr>) = Some y" by simp
      from 1(1) [OF this] show ?thesis by simp
    qed
  qed
qed

lemma ExecutionParser_Inr:
  assumes "ExecutionParser E raw lbl re = Some (Inr X)"
  obtains ms evs where "exec_all re raw 0 = Some ms"
    and "map (log_event E re raw) ms = map Inr evs"
    and "X = \<lparr>rawString = raw, label = lbl, timestamps = map vectorTimestamp evs, logEvents = evs\<rparr>"
  using parse_loop_Inr [OF assms [unfolded ExecutionParser_def]] by auto

lemma ExecutionParser_no_match:
  "exec re raw 0 = None \<Longrightarrow>
     ExecutionParser E raw lbl re =
       Some (Inr \<lparr>rawString = raw, label = lbl, timestamps = [], logEvents = []\<rparr>)"
  unfolding ExecutionParser_def by (subst parse_loop.simps) simp

lemma map_option_sum_Inr:
  "map_option (map_sum f g) r = Some (Inr v) \<Longrightarrow> \<exists>X. r = Some (Inr X) \<and> g X = v"
  by (cases r; cases "the r") auto

lemma log_event_lineNum:
  "log_event E re raw m = Inr ev \<Longrightarrow> lineNum ev = Suc (newlines raw (index m))"
  by (auto simp: log_event_def Let_def line_number_eq split: sum.splits)

lemma map_eq_map_Inr:
  assumes "map f ms = map Inr evs"
  shows "length evs = length ms" and "\<And>k. k < length ms \<Longrightarrow> f (ms ! k) = Inr (evs ! k)"
proof -
  from assms have "length (map f ms) = length (map Inr evs)" by simp
  then show len: "length evs = length ms" by simp
  fix k assume k: "k < length ms"
  then have "f (ms ! k) = map f ms ! k" by simp
  also have "\<dots> = map Inr evs ! k" by (simp only: assms)
  also have "\<dots> = Inr (evs ! k)" using k len by simp
  finally show "f (ms ! k) = Inr (evs ! k)" .
qed

text \<open>
  Claim C4. In every parsed execution the line number of each event is 1 plus the
  number of line feeds in the execution's raw text before the start of the event's
  match, and the line numbers do not decrease along the list of events. The matches
  are those the loop visits, in order.
\<close>

theorem line_numbers:
  assumes "ExecutionParser E raw lbl re = Some (Inr X)"
  shows "\<exists>ms. exec_all re raw 0 = Some ms \<and> length (logEvents X) = length ms
           \<and> (\<forall>k. k < length ms \<longrightarrow>
                 lineNum (logEvents X ! k) =
                   1 + length (filter (\<lambda>c. c = CHR 0x0A) (take (index (ms ! k)) raw)))
           \<and> sorted (map lineNum (logEvents X))"
proof -
  from assms obtain ms evs where ms: "exec_all re raw 0 = Some ms"
    and evs: "map (log_event E re raw) ms = map Inr evs"
    and X: "X = \<lparr>rawString = raw, label = lbl, timestamps = map vectorTimestamp evs, logEvents = evs\<rparr>"
    by (rule ExecutionParser_Inr)
  note ev = map_eq_map_Inr [OF evs]
  have ln: "lineNum (evs ! k) = Suc (newlines raw (index (ms ! k)))" if "k < length ms" for k
    using ev(2) [OF that] by (rule log_event_lineNum)
  have "sorted (map lineNum evs)"
  proof (unfold sorted_iff_nth_mono, intro allI impI)
    fix i j assume ij: "i \<le> j" "j < length (map lineNum evs)"
    with ev(1) have lt: "i < length ms" "j < length ms" by simp_all
    from exec_all_sorted [OF ms] have "sorted (map index ms)" by simp
    with ij(1) lt have "index (ms ! i) \<le> index (ms ! j)"
      by (auto simp: sorted_iff_nth_mono dest!: spec [of _ i] spec [of _ j])
    then have "newlines raw (index (ms ! i)) \<le> newlines raw (index (ms ! j))"
      by (rule newlines_mono)
    with ln lt ev(1) show "map lineNum evs ! i \<le> map lineNum evs ! j" by simp
  qed
  with ms ev(1) ln X show ?thesis by (auto simp: newlines_def)
qed

theorem line_numbers_witness:
  "\<exists>X. ExecutionParser browser log1 (Str []) host_clock_event = Some (Inr X)
       \<and> map lineNum (logEvents X) = [1, 2]
       \<and> (\<exists>ms. exec_all host_clock_event log1 0 = Some ms \<and> length (logEvents X) = length ms
           \<and> (\<forall>k. k < length ms \<longrightarrow>
                 lineNum (logEvents X ! k) =
                   1 + length (filter (\<lambda>c. c = CHR 0x0A) (take (index (ms ! k)) log1)))
           \<and> sorted (map lineNum (logEvents X)))"
proof -
  have "map_option (map_sum id (\<lambda>X. map lineNum (logEvents X)))
          (ExecutionParser browser log1 (Str []) host_clock_event) = Some (Inr [1, 2])"
    by code_simp
  from map_option_sum_Inr [OF this]
  obtain X where X: "ExecutionParser browser log1 (Str []) host_clock_event = Some (Inr X)"
    and l: "map lineNum (logEvents X) = [1, 2]"
    by (elim exE conjE) (rule that)
  from X l line_numbers [OF X] show ?thesis
    by (intro exI [of _ X] conjI)
qed

section \<open>Properties of the loop over the segments\<close>

lemma find_app:
  "find Q (ys @ zs) = (case find Q ys of None \<Rightarrow> find Q zs | Some x \<Rightarrow> Some x)"
  by (induction ys) simp_all

lemma find_rev_snoc:
  "find Q (rev (xs @ [x])) = (if Q x then Some x else find Q (rev xs))"
  by simp


lemma find_rev_Some:
  "find Q (rev xs) = Some x \<Longrightarrow>
     \<exists>n < length xs. x = xs ! n \<and> Q x \<and> (\<forall>n'. n < n' \<and> n' < length xs \<longrightarrow> \<not> Q (xs ! n'))"
proof (induction xs rule: rev_induct)
  case Nil
  then show ?case by simp
next
  case (snoc y xs)
  show ?case
  proof (cases "Q y")
    case True
    with snoc.prems have "x = y" by simp
    with True show ?thesis
      by (intro exI [of _ "length xs"]) auto
  next
    case False
    with snoc.prems have "find Q (rev xs) = Some x" by simp
    from snoc.IH [OF this] obtain n where n: "n < length xs" "x = xs ! n" "Q x"
      "\<forall>n'. n < n' \<and> n' < length xs \<longrightarrow> \<not> Q (xs ! n')" by blast
    have "\<not> Q ((xs @ [y]) ! n')" if "n < n'" "n' < length (xs @ [y])" for n'
      using that n(4) False by (cases "n' = length xs") (auto simp: nth_append)
    with n show ?thesis
      by (intro exI [of _ n]) (simp add: nth_append)
  qed
qed

lemma pending_end: "length segs \<le> i \<Longrightarrow> pending segs lbls i = []"
  by (simp add: pending_def)

lemma pending_step:
  "i < length segs \<Longrightarrow>
     pending segs lbls i =
       (if blank (segs ! i) then pending segs lbls (Suc i)
        else (segs ! i, at_index lbls i) # pending segs lbls (Suc i))"
  by (simp add: pending_def upt_conv_Cons)

lemma segments_loop_Inr:
  "segments_loop E re segs lbls i P = Some (Inr Q) \<Longrightarrow>
     labels Q = labels P @ map snd (pending segs lbls i) \<and> trimmed Q = trimmed P
     \<and> (\<forall>k. case find (has_key k) (rev (pending segs lbls i)) of
               None \<Rightarrow> executions Q k = executions P k
             | Some (seg, l) \<Rightarrow>
                 (\<exists>X. ExecutionParser E seg l re = Some (Inr X) \<and> executions Q k = Some X))"
proof (induction E re segs lbls i P rule: segments_loop.induct)
  case (1 E re segs lbls i P)
  show ?case
  proof (cases "i < length segs")
    case False
    with "1.prems" have "Q = P" by (simp add: segments_loop.simps [of E re segs lbls i P])
    with False show ?thesis by (simp add: pending_end)
  next
    case lt: True
    show ?thesis
    proof (cases "blank (segs ! i)")
      case True
      with lt have b: "\<not> 0 < length (trim (segs ! i))" using trim_Nil [of "segs ! i"] by simp
      with lt "1.prems" have "segments_loop E re segs lbls (Suc i) P = Some (Inr Q)"
        by (simp add: segments_loop.simps [of E re segs lbls i P])
      from "1.IH"(2) [OF lt b this] True lt show ?thesis
        by (simp add: pending_step)
    next
      case False
      with lt have nb: "0 < length (trim (segs ! i))" using trim_Nil [of "segs ! i"] by simp
      define l where "l = at_index lbls i"
      from lt nb "1.prems" obtain X where
        X: "ExecutionParser E (segs ! i) l re = Some (Inr X)"
        and rec: "segments_loop E re segs lbls (Suc i)
                    (P\<lparr>executions := (executions P)(ToString l \<mapsto> X), labels := labels P @ [l]\<rparr>)
                  = Some (Inr Q)"
        by (auto simp: segments_loop.simps [of E re segs lbls i P] l_def
            split: option.splits sum.splits)
      define P' where "P' = P\<lparr>executions := (executions P)(ToString l \<mapsto> X), labels := labels P @ [l]\<rparr>"
      have ihc: "labels Q = labels P' @ map snd (pending segs lbls (Suc i)) \<and> trimmed Q = trimmed P'
        \<and> (\<forall>k. case find (has_key k) (rev (pending segs lbls (Suc i))) of
               None \<Rightarrow> executions Q k = executions P' k
             | Some (seg, l) \<Rightarrow>
                 (\<exists>X. ExecutionParser E seg l re = Some (Inr X) \<and> executions Q k = Some X))"
        using "1.IH"(1) [OF lt nb X [unfolded l_def] refl rec [unfolded l_def]]
        unfolding P'_def l_def .
      note ih = ihc [THEN conjunct1] ihc [THEN conjunct2, THEN conjunct1]
        ihc [THEN conjunct2, THEN conjunct2, rule_format]
      have p: "pending segs lbls i = (segs ! i, l) # pending segs lbls (Suc i)"
        using lt False by (simp add: pending_step l_def)
      have "case find (has_key k) (rev (pending segs lbls i)) of
               None \<Rightarrow> executions Q k = executions P k
             | Some (seg, l) \<Rightarrow>
                 (\<exists>X. ExecutionParser E seg l re = Some (Inr X) \<and> executions Q k = Some X)" for k
      proof (cases "find (has_key k) (rev (pending segs lbls (Suc i)))")
        case (Some a)
        with ih(3) [of k] show ?thesis by (simp add: p find_app)
      next
        case None
        with ih(3) [of k] have e: "executions Q k = executions P' k" by simp
        show ?thesis
        proof (cases "ToString l = k")
          case True
          with e X None show ?thesis by (simp add: p find_app has_key_def P'_def)
        next
          case False
          with e None show ?thesis by (simp add: p find_app has_key_def P'_def)
        qed
      qed
      with ih(1,2) p show ?thesis by (simp add: P'_def)
    qed
  qed
qed






lemma segments_loop_keys:
  assumes "segments_loop E re segs lbls 0 \<lparr>trimmed = T, labels = [], executions = Map.empty\<rparr> = Some (Inr P)"
  shows "dom (executions P) = ToString ` set (labels P)"
proof -
  note c = segments_loop_Inr [OF assms]
  from c have l: "labels P = map snd (pending segs lbls 0)" by simp
  have "executions P k = None \<longleftrightarrow> k \<notin> ToString ` set (labels P)" for k
  proof (cases "find (has_key k) (rev (pending segs lbls 0))")
    case None
    then have "k \<notin> ToString ` set (labels P)"
      by (fastforce simp: find_None_iff has_key_def l)
    moreover from c None have "executions P k = None" by (auto dest: spec [of _ k])
    ultimately show ?thesis by simp
  next
    case (Some a)
    from find_rev_Some [OF Some] have "a \<in> set (pending segs lbls 0)" "has_key k a"
      by auto
    then have "k \<in> ToString ` set (labels P)" by (force simp: l has_key_def)
    moreover from c Some have "executions P k \<noteq> None"
      by (cases a) (auto dest!: spec [of _ k])
    ultimately show ?thesis by simp
  qed
  then show ?thesis by (auto simp: dom_def)
qed

lemma LogParser_delimiter:
  assumes "LogParser E raw (Some d) re = Some res"
  shows "\<exists>lbls.
    segments_loop E re (split (trim raw) (no d)) lbls 0
       \<lparr>trimmed = trim raw, labels = [], executions = Map.empty\<rparr> = Some res
    \<and> (''trace'' \<in> set (names d) \<longrightarrow>
           (\<exists>ms. exec_all d (trim raw) 0 = Some ms \<and> lbls = Str [] # map (\<lambda>m. field m ''trace'') ms))
    \<and> (''trace'' \<notin> set (names d) \<longrightarrow> lbls = [Str []])"
  using assms by (auto simp: LogParser_def Let_def split: option.splits if_splits)





text \<open>
  The same log with the delimiter that has no \<open>trace\<close> group: the two pieces after a
  match have the label \<open>undefined\<close>.
\<close>

lemma plain_delimiter_labels:
  "map_option (map_sum id getLabels) (LogParser browser log2 (Some plain_delimiter) host_clock_event)
     = Some (Inr [Undefined, Undefined])
   \<and> map snd (spec_executions (trim log2) (delimiter_matches plain_delimiter (trim log2)))
     = [Undefined, Undefined]"
  by code_simp



lemma LogParser_absent:
  "LogParser E raw None re =
     map_option (map_sum id (\<lambda>X. \<lparr>trimmed = trim raw, labels = [Str []], executions = [[] \<mapsto> X]\<rparr>))
       (ExecutionParser E (trim raw) (Str []) re)"
  by (simp add: LogParser_def Let_def split: option.splits sum.splits)

lemma split_no_match:
  assumes "exec d S 0 = None"
  shows "split S (no d) = [S]"
proof -
  from assms have "exec_all d S 0 = Some []" by (rule exec_all_None_step)
  from split_between [OF this] show ?thesis by (simp add: substring_def)
qed

lemma segments_loop_single:
  assumes "\<not> blank S"
  shows "segments_loop E re [S] [Str []] 0 \<lparr>trimmed = T, labels = [], executions = Map.empty\<rparr> =
     map_option (map_sum id (\<lambda>X. \<lparr>trimmed = T, labels = [Str []], executions = [[] \<mapsto> X]\<rparr>))
       (ExecutionParser E S (Str []) re)"
proof -
  from assms have nb: "trim S \<noteq> []" by (simp add: trim_Nil)
  show ?thesis
    by (subst segments_loop.simps, subst segments_loop.simps)
       (simp add: nb at_index_def ToString_def split: option.splits sum.splits)
qed

lemma LogParser_no_match:
  assumes "exec d (trim raw) 0 = None" and "\<not> blank raw"
  shows "LogParser E raw (Some d) re = LogParser E raw None re"
proof -
  from assms(2) have "trim raw \<noteq> []" by (simp add: trim_Nil)
  then have "trim (trim raw) \<noteq> []" by (simp add: trim_trim)
  then have nb: "\<not> blank (trim raw)" by (simp add: trim_Nil)
  have labels: "(if ''trace'' \<in> set (names d)
         then map_option (\<lambda>ms. [Str []] @ map (\<lambda>m. field m ''trace'') ms) (exec_all d (trim raw) 0)
         else Some [Str []]) = Some [Str []]"
    by (simp add: exec_all_None_step [OF assms(1)])
  show ?thesis
    unfolding LogParser_absent
    by (simp add: LogParser_def Let_def split_no_match [OF assms(1)] labels
        segments_loop_single [OF nb])
qed

text \<open>
  Claim C7, as amended. When the delimiter is absent, or is present, matches the trimmed
  text nowhere and the text is not blank, the constructor does what the parsing of the
  whole trimmed text as one execution does, and a parser it returns has exactly one
  execution: its only label is \<open>""\<close>, the table has this one key, and the events of
  that execution are those of the matches of the event pattern in the trimmed text, one
  for each match, in the order of the matches.
\<close>

theorem single_execution:
  assumes "delimiter = None \<or> (\<exists>d. delimiter = Some d \<and> exec d (trim raw) 0 = None \<and> \<not> blank raw)"
  shows "LogParser E raw delimiter re =
           map_option (map_sum id (\<lambda>X. \<lparr>trimmed = trim raw, labels = [Str []], executions = [[] \<mapsto> X]\<rparr>))
             (ExecutionParser E (trim raw) (Str []) re)
         \<and> (\<forall>P. LogParser E raw delimiter re = Some (Inr P) \<longrightarrow>
               getLabels P = [Str []] \<and> dom (executions P) = {[]}
               \<and> (\<exists>ms evs. exec_all re (trim raw) 0 = Some ms
                     \<and> map (log_event E re (trim raw)) ms = map Inr evs
                     \<and> getLogEvents P (Str []) = JEvents evs))"
proof -
  from assms have eq: "LogParser E raw delimiter re =
           map_option (map_sum id (\<lambda>X. \<lparr>trimmed = trim raw, labels = [Str []], executions = [[] \<mapsto> X]\<rparr>))
             (ExecutionParser E (trim raw) (Str []) re)"
    using LogParser_no_match [of _ raw E re] LogParser_absent [of E raw re] by auto
  have "getLabels P = [Str []] \<and> dom (executions P) = {[]}
               \<and> (\<exists>ms evs. exec_all re (trim raw) 0 = Some ms
                     \<and> map (log_event E re (trim raw)) ms = map Inr evs
                     \<and> getLogEvents P (Str []) = JEvents evs)"
    if "LogParser E raw delimiter re = Some (Inr P)" for P
  proof -
    from that eq obtain X where X: "ExecutionParser E (trim raw) (Str []) re = Some (Inr X)"
      and P: "P = \<lparr>trimmed = trim raw, labels = [Str []], executions = [[] \<mapsto> X]\<rparr>"
      by (cases "ExecutionParser E (trim raw) (Str []) re"; cases "the (ExecutionParser E (trim raw) (Str []) re)") auto
    from X obtain ms evs where "exec_all re (trim raw) 0 = Some ms"
      "map (log_event E re (trim raw)) ms = map Inr evs" "logEvents X = evs"
      by (rule ExecutionParser_Inr) simp
    with P show ?thesis
      by (auto simp: getLabels_def getLogEvents_def ToString_def)
  qed
  with eq show ?thesis by blast
qed

theorem single_execution_witness:
  "exec trace_delimiter (trim log1) 0 = None \<and> \<not> blank log1
   \<and> map_option (map_sum id (\<lambda>P. (getLabels P, getLogEvents P (Str [])))) (LogParser browser log1 (Some trace_delimiter) host_clock_event)
     = Some (Inr ([Str []],
          JEvents [\<lparr>event_text = Str ''hello'', vectorTimestamp = ([(''a'', 1)], Str ''a''),
                     lineNum = 1, event_fields = []\<rparr>,
                   \<lparr>event_text = Str ''world'', vectorTimestamp = ([(''b'', 1), (''a'', 1)], Str ''b''),
                     lineNum = 2, event_fields = []\<rparr>]))
   \<and> LogParser browser log1 (Some trace_delimiter) host_clock_event =
           map_option (map_sum id (\<lambda>X. \<lparr>trimmed = trim log1, labels = [Str []], executions = [[] \<mapsto> X]\<rparr>))
             (ExecutionParser browser (trim log1) (Str []) host_clock_event)"
proof -
  have a: "exec trace_delimiter (trim log1) 0 = None" by code_simp
  have b: "\<not> blank log1" by code_simp
  have c: "map_option (map_sum id (\<lambda>P. (getLabels P, getLogEvents P (Str [])))) (LogParser browser log1 (Some trace_delimiter) host_clock_event)
     = Some (Inr ([Str []],
          JEvents [\<lparr>event_text = Str ''hello'', vectorTimestamp = ([(''a'', 1)], Str ''a''),
                     lineNum = 1, event_fields = []\<rparr>,
                   \<lparr>event_text = Str ''world'', vectorTimestamp = ([(''b'', 1), (''a'', 1)], Str ''b''),
                     lineNum = 2, event_fields = []\<rparr>]))"
    by code_simp
  from a b have "Some trace_delimiter = None \<or>
      (\<exists>d. Some trace_delimiter = Some d \<and> exec d (trim log1) 0 = None \<and> \<not> blank log1)"
    by simp
  from single_execution [OF this, of browser host_clock_event]
  have d: "LogParser browser log1 (Some trace_delimiter) host_clock_event =
           map_option (map_sum id (\<lambda>X. \<lparr>trimmed = trim log1, labels = [Str []], executions = [[] \<mapsto> X]\<rparr>))
             (ExecutionParser browser (trim log1) (Str []) host_clock_event)"
    by (rule conjunct1)
  from a b c d show ?thesis
    by (intro conjI)
qed

text \<open>
  The claim as stated fails on an empty log with a delimiter: the one segment is blank
  and is dropped, and the parser has no execution at all.
\<close>

theorem empty_log_counterexample:
  "exec trace_delimiter (trim []) 0 = None
   \<and> map_option (map_sum id getLabels) (LogParser browser [] (Some trace_delimiter) host_clock_event)
     = Some (Inr [])"
  by code_simp

lemma getLogEvents_known:
  "executions P (ToString l) = Some X \<Longrightarrow> getLogEvents P l = JEvents (logEvents X)"
  by (simp add: getLogEvents_def)

lemma getLogEvents_unknown:
  "executions P (ToString l) = None \<Longrightarrow> ToString l \<notin> set Object_prototype \<Longrightarrow> getLogEvents P l = JNull"
  by (simp add: getLogEvents_def)

lemma getLogEvents_inherited:
  "executions P (ToString l) = None \<Longrightarrow> ToString l \<in> set Object_prototype \<Longrightarrow>
     getLogEvents P l = JUndefined"
  by (simp add: getLogEvents_def)

lemma known_labels:
  assumes "LogParser E raw delimiter re = Some (Inr P)"
  shows "dom (executions P) = ToString ` set (getLabels P)"
proof (cases delimiter)
  case None
  with assms have "map_option (map_sum id (\<lambda>X. \<lparr>trimmed = trim raw, labels = [Str []], executions = [[] \<mapsto> X]\<rparr>))
       (ExecutionParser E (trim raw) (Str []) re) = Some (Inr P)"
    by (simp add: LogParser_absent)
  from map_option_sum_Inr [OF this]
  obtain X where "P = \<lparr>trimmed = trim raw, labels = [Str []], executions = [[] \<mapsto> X]\<rparr>"
    by auto
  then show ?thesis
    by (auto simp: getLabels_def ToString_def split: if_splits)
next
  case (Some d)
  with assms show ?thesis
    unfolding getLabels_def
    by (auto simp: LogParser_def Let_def split: option.splits if_splits
        dest!: segments_loop_keys)
qed

text \<open>
  Claim C5. A label among the parsed labels is looked up as its execution's events, and
  a label that is neither among them nor the name of a property of \<open>Object.prototype\<close>
  gives \<open>null\<close> (\<open>getLogEvents_known\<close>, \<open>getLogEvents_unknown\<close>, \<open>known_labels\<close>). But
  for a label such as \<open>"constructor"\<close>, unknown to the parser, \<open>this.executions[label]\<close>
  is the inherited function, and \<open>getLogEvents\<close> returns \<open>undefined\<close>, not \<open>null\<close>:
  here on the parser of \<open>log1\<close>, whose only label is \<open>""\<close>.
\<close>

theorem inherited_label_gives_undefined:
  "map_option (map_sum id (\<lambda>P. (getLabels P, getLogEvents P (Str ''constructor''))))
     (LogParser browser log1 None host_clock_event)
   = Some (Inr ([Str []], JUndefined))"
  by code_simp

lemma parseTimestamp_unbound:
  "scope E ''line'' = None \<Longrightarrow> parseTimestamp E c h = Inl err \<Longrightarrow> err = ReferenceError ''line''"
  by (auto simp: parseTimestamp_def split: sum.splits)

lemma log_event_Inl:
  "log_event E re raw m = Inl err \<Longrightarrow>
     parseTimestamp E (field m ''clock'') (field m ''host'') = Inl err"
  by (auto simp: log_event_def Let_def split: sum.splits)

lemma ExecutionParser_Inl:
  assumes "ExecutionParser E raw lbl re = Some (Inl err)"
  shows "\<exists>m. parseTimestamp E (field m ''clock'') (field m ''host'') = Inl err"
  using parse_loop_Inl [OF assms [unfolded ExecutionParser_def]] log_event_Inl [of E re raw _ err]
  by auto

lemma ExecutionParser_unbound:
  "ExecutionParser E raw lbl re = Some (Inl err) \<Longrightarrow> scope E ''line'' = None \<Longrightarrow>
     err = ReferenceError ''line''"
  by (auto dest!: ExecutionParser_Inl dest: parseTimestamp_unbound)

text \<open>
  Claim C2. A clock that is no JSON text aborts the parse, but the error raised carries
  neither the line number of the match nor the clock text: the handler reads the
  identifiers \<open>line\<close> and \<open>text\<close>, which are bound nowhere, where the line number is in
  \<open>ln\<close> and the clock text in \<open>clockString\<close>, and what is thrown is the
  \<open>ReferenceError\<close> for \<open>line\<close> (\<open>ExecutionParser_unbound\<close>). Here the clock
  \<open>{bad\<close> on line 2 of \<open>log3\<close>.
\<close>

theorem malformed_clock_error:
  "map_option (map_sum id getLabels) (LogParser browser log3 None host_clock_event)
   = Some (Inl (ReferenceError ''line''))"
  by code_simp

lemma exec_all_props:
  "exec_all r S li = Some ms \<Longrightarrow> m \<in> set ms \<Longrightarrow> \<exists>caps. props m = zip (names r) caps"
proof (induction "Suc (length S) - li" arbitrary: li ms rule: less_induct)
  case less
  from less.prems(1) show ?case
  proof (cases rule: exec_all_cases)
    case stop
    with less.prems(2) show ?thesis by simp
  next
    case (more m' e ms')
    note ex = exec_Some [OF more(1)]
    from less.prems(2) more(2) consider "m = m'" | "m \<in> set ms'" by auto
    then show ?thesis
    proof cases
      case 1
      with ex(5) show ?thesis by auto
    next
      case 2
      show ?thesis
        using more(3,4) ex(4) 2 by (intro less.hyps [of e ms']) auto
    qed
  qed
qed

lemma parse_loop_Inl_match:
  "parse_loop E re li X = Some y \<Longrightarrow>
     (\<forall>err. y = Inl err \<longrightarrow>
        (\<exists>m li' e. exec re (rawString X) li' = Some (m, e) \<and> log_event E re (rawString X) m = Inl err))"
proof (induction rule: parse_loop.raw_induct [rotated 1, consumes 1])
  case (1 parse_loop E re li X y)
  show ?case
  proof (cases "exec re (rawString X) li")
    case None
    with 1(2) show ?thesis by auto
  next
    case (Some a)
    obtain m e where a: "a = (m, e)" by (cases a)
    with Some have ex: "exec re (rawString X) li = Some (m, e)" by simp
    show ?thesis
    proof (cases "log_event E re (rawString X) m")
      case (Inl err)
      with 1(2) ex show ?thesis by auto
    next
      case (Inr ev)
      with 1(2) ex have "parse_loop E re e (X\<lparr>timestamps := timestamps X @ [vectorTimestamp ev],
          logEvents := logEvents X @ [ev]\<rparr>) = Some y" by simp
      from 1(1) [OF this] show ?thesis by simp
    qed
  qed
qed

text \<open>
  A match object of the pattern \<open>re\<close> in the text \<open>S\<close>: what \<open>exec\<close> builds for a
  match of the pattern at some index of the text.
\<close>

lemma exec_match_object:
  assumes "exec re S li = Some (m, e)"
  shows "\<exists>i n caps. i \<le> length S \<and> match_at re S i = Some (n, caps)
           \<and> m = \<lparr>index = i, matched = n, props = zip (names re) caps\<rparr>"
proof -
  from exec_Some(2,5) [OF assms] obtain caps where
    "index m \<le> length S" "match_at re S (index m) = Some (matched m, caps)"
    "props m = zip (names re) caps" by auto
  then show ?thesis
    by (intro exI [of _ "index m"] exI [of _ "matched m"] exI [of _ caps]) simp
qed

lemma ExecutionParser_Inl_match:
  assumes "ExecutionParser E raw lbl re = Some (Inl err)"
  shows "\<exists>m i n caps. i \<le> length raw \<and> match_at re raw i = Some (n, caps)
           \<and> m = \<lparr>index = i, matched = n, props = zip (names re) caps\<rparr>
           \<and> (\<forall>name. name \<notin> set (names re) \<longrightarrow> field m name = Undefined)
           \<and> parseTimestamp E (field m ''clock'') (field m ''host'') = Inl err"
proof -
  from parse_loop_Inl_match [OF assms [unfolded ExecutionParser_def]]
  obtain m li' e where ex: "exec re raw li' = Some (m, e)" and le: "log_event E re raw m = Inl err"
    by auto
  from exec_match_object [OF ex] obtain i n caps where
    m: "i \<le> length raw" "match_at re raw i = Some (n, caps)"
       "m = \<lparr>index = i, matched = n, props = zip (names re) caps\<rparr>" by blast
  from m(3) have "props m = zip (names re) caps" by simp
  then have "\<forall>name. name \<notin> set (names re) \<longrightarrow> field m name = Undefined"
    by (auto intro: field_absent)
  with m log_event_Inl [OF le] show ?thesis by blast
qed

lemma log_event_text: "log_event E re raw m = Inr ev \<Longrightarrow> event_text ev = field m ''event''"
  by (auto simp: log_event_def Let_def split: sum.splits)

lemma ExecutionParser_Inr_fields:
  assumes "ExecutionParser E raw lbl re = Some (Inr X)"
  shows "\<exists>ms. exec_all re raw 0 = Some ms
           \<and> map event_text (logEvents X) = map (\<lambda>m. field m ''event'') ms
           \<and> (\<forall>m \<in> set ms. \<forall>name. name \<notin> set (names re) \<longrightarrow> field m name = Undefined)"
proof -
  from assms obtain ms evs where ms: "exec_all re raw 0 = Some ms"
    and evs: "map (log_event E re raw) ms = map Inr evs" and l: "logEvents X = evs"
    by (rule ExecutionParser_Inr) simp
  note e = map_eq_map_Inr [OF evs]
  have "map event_text evs = map (\<lambda>m. field m ''event'') ms"
  proof (rule nth_equalityI)
    show "length (map event_text evs) = length (map (\<lambda>m. field m ''event'') ms)"
      using e(1) by simp
    fix k assume "k < length (map event_text evs)"
    with e(1) have k: "k < length ms" by simp
    from log_event_text [OF e(2) [OF k]] k e(1)
    show "map event_text evs ! k = map (\<lambda>m. field m ''event'') ms ! k" by simp
  qed
  moreover have "field m name = Undefined" if "m \<in> set ms" "name \<notin> set (names re)" for m name
  proof -
    from exec_all_props [OF ms that(1)] obtain caps where "props m = zip (names re) caps" ..
    from field_absent [OF this that(2)] show ?thesis .
  qed
  ultimately show ?thesis using ms l by blast
qed

lemma ExecutionParser_no_event_group:
  assumes "''event'' \<notin> set (names re)" and "ExecutionParser E raw lbl re = Some (Inr X)"
    and "ev \<in> set (logEvents X)"
  shows "event_text ev = Undefined"
proof -
  from ExecutionParser_Inr_fields [OF assms(2)] obtain ms where
    t: "map event_text (logEvents X) = map (\<lambda>m. field m ''event'') ms"
    and u: "\<forall>m \<in> set ms. \<forall>name. name \<notin> set (names re) \<longrightarrow> field m name = Undefined"
    by blast
  from assms(3) have "event_text ev \<in> set (map event_text (logEvents X))" by simp
  with t have "event_text ev \<in> set (map (\<lambda>m. field m ''event'') ms)" by simp
  with u assms(1) show ?thesis by auto
qed

lemma segments_loop_Inl:
  "segments_loop E re segs lbls i P = Some (Inl err) \<Longrightarrow>
     \<exists>seg l. seg \<in> set segs \<and> ExecutionParser E seg l re = Some (Inl err)"
proof (induction E re segs lbls i P rule: segments_loop.induct)
  case (1 E re segs lbls i P)
  show ?case
  proof (cases "i < length segs")
    case False
    with "1.prems" show ?thesis by (simp add: segments_loop.simps [of E re segs lbls i P])
  next
    case lt: True
    show ?thesis
    proof (cases "0 < length (trim (segs ! i))")
      case False
      with lt "1.prems" have "segments_loop E re segs lbls (Suc i) P = Some (Inl err)"
        by (simp add: segments_loop.simps [of E re segs lbls i P])
      from "1.IH"(2) [OF lt False this] show ?thesis .
    next
      case nb: True
      show ?thesis
      proof (cases "ExecutionParser E (segs ! i) (at_index lbls i) re")
        case None
        with lt nb "1.prems" show ?thesis
          by (simp add: segments_loop.simps [of E re segs lbls i P])
      next
        case (Some res)
        show ?thesis
        proof (cases res)
          case (Inl e)
          with Some lt nb "1.prems" have "e = err"
            by (simp add: segments_loop.simps [of E re segs lbls i P])
          with Some Inl lt show ?thesis
            by (intro exI [of _ "segs ! i"] exI [of _ "at_index lbls i"]) simp
        next
          case (Inr X)
          with Some lt nb "1.prems"
          have "segments_loop E re segs lbls (Suc i)
                  (P\<lparr>executions := (executions P)(ToString (at_index lbls i) \<mapsto> X),
                     labels := labels P @ [at_index lbls i]\<rparr>) = Some (Inl err)"
            by (simp add: segments_loop.simps [of E re segs lbls i P])
          from "1.IH"(1) [OF lt nb Some [unfolded Inr] refl this] show ?thesis .
        qed
      qed
    qed
  qed
qed

lemma segments_loop_entries:
  assumes "segments_loop E re segs lbls 0 \<lparr>trimmed = T, labels = [], executions = Map.empty\<rparr> = Some (Inr P)"
    and "executions P k = Some X"
  shows "\<exists>seg l. ExecutionParser E seg l re = Some (Inr X)"
proof (cases "find (has_key k) (rev (pending segs lbls 0))")
  case None
  with segments_loop_Inr [OF assms(1)] assms(2) show ?thesis
    by (auto dest!: spec [of _ k])
next
  case (Some a)
  obtain seg l where a: "a = (seg, l)" by (cases a)
  from segments_loop_Inr [OF assms(1)] Some a
  have "\<exists>Y. ExecutionParser E seg l re = Some (Inr Y) \<and> executions P k = Some Y"
    by (auto dest!: spec [of _ k])
  with assms(2) have "ExecutionParser E seg l re = Some (Inr X)" by auto
  then show ?thesis by (intro exI)
qed

lemma LogParser_entries:
  assumes "LogParser E raw delimiter re = Some (Inr P)" and "executions P k = Some X"
  shows "\<exists>seg l. ExecutionParser E seg l re = Some (Inr X)"
proof (cases delimiter)
  case None
  with assms(1) have "map_option (map_sum id (\<lambda>X. \<lparr>trimmed = trim raw, labels = [Str []], executions = [[] \<mapsto> X]\<rparr>))
       (ExecutionParser E (trim raw) (Str []) re) = Some (Inr P)"
    by (simp add: LogParser_absent)
  from map_option_sum_Inr [OF this]
  obtain Y where "ExecutionParser E (trim raw) (Str []) re = Some (Inr Y)"
    "P = \<lparr>trimmed = trim raw, labels = [Str []], executions = [[] \<mapsto> Y]\<rparr>"
    by auto
  with assms(2) show ?thesis by (auto split: if_splits)
next
  case (Some d)
  with assms(1) LogParser_delimiter [of E raw d re "Inr P"] obtain lbls where
    "segments_loop E re (split (trim raw) (no d)) lbls 0
       \<lparr>trimmed = trim raw, labels = [], executions = Map.empty\<rparr> = Some (Inr P)"
    by auto
  from segments_loop_entries [OF this assms(2)] show ?thesis .
qed

lemma LogParser_Inl:
  assumes "LogParser E raw delimiter re = Some (Inl err)"
  shows "\<exists>seg l. seg \<in> set (case delimiter of None \<Rightarrow> [trim raw] | Some d \<Rightarrow> split (trim raw) (no d))
           \<and> ExecutionParser E seg l re = Some (Inl err)"
proof (cases delimiter)
  case None
  with assms have "map_option (map_sum id (\<lambda>X. \<lparr>trimmed = trim raw, labels = [Str []], executions = [[] \<mapsto> X]\<rparr>))
       (ExecutionParser E (trim raw) (Str []) re) = Some (Inl err)"
    by (simp add: LogParser_absent)
  then have "ExecutionParser E (trim raw) (Str []) re = Some (Inl err)"
    by (cases "ExecutionParser E (trim raw) (Str []) re"; cases "the (ExecutionParser E (trim raw) (Str []) re)")
       auto
  with None show ?thesis by auto
next
  case (Some d)
  with assms LogParser_delimiter [of E raw d re "Inl err"] obtain lbls where
    "segments_loop E re (split (trim raw) (no d)) lbls 0
       \<lparr>trimmed = trim raw, labels = [], executions = Map.empty\<rparr> = Some (Inl err)"
    by auto
  from segments_loop_Inl [OF this] Some show ?thesis by simp
qed

text \<open>
  Claim C3, as amended. Neither constructor looks at the names of the event pattern before
  it processes the text, and neither raises an error for a missing group: a group the
  pattern lacks reads \<open>undefined\<close> on every match. A pattern that matches nowhere in
  the text gives an execution without events, and without delimiter a parser with that
  one execution, whatever groups the pattern lacks. The text of every parsed event is the
  \<open>event\<close> property of its match, so with a pattern that lacks \<open>event\<close> it is
  \<open>undefined\<close>, in an execution and in every execution of a parser's table. And an
  error of either constructor is the error of \<open>parseTimestamp\<close> on the \<open>clock\<close> and
  \<open>host\<close> properties of a match of the pattern in the text handed to
  \<open>ExecutionParser\<close>: the trimmed text, or one of its split segments.
\<close>

theorem missing_group_reads_undefined:
  "(exec re raw 0 = None \<longrightarrow>
      ExecutionParser E raw lbl re =
        Some (Inr \<lparr>rawString = raw, label = lbl, timestamps = [], logEvents = []\<rparr>))
   \<and> (exec re (trim raw) 0 = None \<longrightarrow>
        LogParser E raw None re =
          Some (Inr \<lparr>trimmed = trim raw, labels = [Str []],
                     executions = [[] \<mapsto> \<lparr>rawString = trim raw, label = Str [],
                                               timestamps = [], logEvents = []\<rparr>]\<rparr>))
   \<and> (ExecutionParser E raw lbl re = Some (Inr X) \<longrightarrow>
        (\<exists>ms. exec_all re raw 0 = Some ms
           \<and> map event_text (logEvents X) = map (\<lambda>m. field m ''event'') ms
           \<and> (\<forall>m \<in> set ms. \<forall>name. name \<notin> set (names re) \<longrightarrow> field m name = Undefined)))
   \<and> (''event'' \<notin> set (names re) \<and> ExecutionParser E raw lbl re = Some (Inr X) \<longrightarrow>
        (\<forall>ev \<in> set (logEvents X). event_text ev = Undefined))
   \<and> (''event'' \<notin> set (names re) \<and> LogParser E raw delimiter re = Some (Inr P) \<longrightarrow>
        (\<forall>k Y. executions P k = Some Y \<longrightarrow> (\<forall>ev \<in> set (logEvents Y). event_text ev = Undefined)))
   \<and> (ExecutionParser E raw lbl re = Some (Inl err) \<longrightarrow>
        (\<exists>m i n caps. i \<le> length raw \<and> match_at re raw i = Some (n, caps)
           \<and> m = \<lparr>index = i, matched = n, props = zip (names re) caps\<rparr>
           \<and> (\<forall>name. name \<notin> set (names re) \<longrightarrow> field m name = Undefined)
           \<and> parseTimestamp E (field m ''clock'') (field m ''host'') = Inl err))
   \<and> (LogParser E raw delimiter re = Some (Inl err) \<longrightarrow>
        (\<exists>seg m i n caps.
           seg \<in> set (case delimiter of None \<Rightarrow> [trim raw] | Some d \<Rightarrow> split (trim raw) (no d))
           \<and> i \<le> length seg \<and> match_at re seg i = Some (n, caps)
           \<and> m = \<lparr>index = i, matched = n, props = zip (names re) caps\<rparr>
           \<and> (\<forall>name. name \<notin> set (names re) \<longrightarrow> field m name = Undefined)
           \<and> parseTimestamp E (field m ''clock'') (field m ''host'') = Inl err))"
proof (intro conjI impI)
  assume "exec re raw 0 = None"
  then show "ExecutionParser E raw lbl re =
        Some (Inr \<lparr>rawString = raw, label = lbl, timestamps = [], logEvents = []\<rparr>)"
    by (rule ExecutionParser_no_match)
next
  assume "exec re (trim raw) 0 = None"
  then show "LogParser E raw None re =
          Some (Inr \<lparr>trimmed = trim raw, labels = [Str []],
                     executions = [[] \<mapsto> \<lparr>rawString = trim raw, label = Str [],
                                               timestamps = [], logEvents = []\<rparr>]\<rparr>)"
    by (simp add: LogParser_absent ExecutionParser_no_match)
next
  assume "ExecutionParser E raw lbl re = Some (Inr X)"
  then show "\<exists>ms. exec_all re raw 0 = Some ms
           \<and> map event_text (logEvents X) = map (\<lambda>m. field m ''event'') ms
           \<and> (\<forall>m \<in> set ms. \<forall>name. name \<notin> set (names re) \<longrightarrow> field m name = Undefined)"
    by (rule ExecutionParser_Inr_fields)
next
  assume "''event'' \<notin> set (names re) \<and> ExecutionParser E raw lbl re = Some (Inr X)"
  then show "\<forall>ev \<in> set (logEvents X). event_text ev = Undefined"
    by (auto dest: ExecutionParser_no_event_group)
next
  assume a: "''event'' \<notin> set (names re) \<and> LogParser E raw delimiter re = Some (Inr P)"
  show "\<forall>k Y. executions P k = Some Y \<longrightarrow> (\<forall>ev \<in> set (logEvents Y). event_text ev = Undefined)"
  proof (intro allI impI ballI)
    fix k Y ev assume "executions P k = Some Y" and ev: "ev \<in> set (logEvents Y)"
    with a LogParser_entries [of E raw delimiter re P k Y]
    obtain seg l where "ExecutionParser E seg l re = Some (Inr Y)" by blast
    from ExecutionParser_no_event_group [OF a [THEN conjunct1] this ev]
    show "event_text ev = Undefined" .
  qed
next
  assume "ExecutionParser E raw lbl re = Some (Inl err)"
  then show "\<exists>m i n caps. i \<le> length raw \<and> match_at re raw i = Some (n, caps)
           \<and> m = \<lparr>index = i, matched = n, props = zip (names re) caps\<rparr>
           \<and> (\<forall>name. name \<notin> set (names re) \<longrightarrow> field m name = Undefined)
           \<and> parseTimestamp E (field m ''clock'') (field m ''host'') = Inl err"
    by (rule ExecutionParser_Inl_match)
next
  assume "LogParser E raw delimiter re = Some (Inl err)"
  from LogParser_Inl [OF this] obtain seg l where
    seg: "seg \<in> set (case delimiter of None \<Rightarrow> [trim raw] | Some d \<Rightarrow> split (trim raw) (no d))"
    and "ExecutionParser E seg l re = Some (Inl err)" by blast
  from ExecutionParser_Inl_match [OF this(2)] seg
  show "\<exists>seg m i n caps.
           seg \<in> set (case delimiter of None \<Rightarrow> [trim raw] | Some d \<Rightarrow> split (trim raw) (no d))
           \<and> i \<le> length seg \<and> match_at re seg i = Some (n, caps)
           \<and> m = \<lparr>index = i, matched = n, props = zip (names re) caps\<rparr>
           \<and> (\<forall>name. name \<notin> set (names re) \<longrightarrow> field m name = Undefined)
           \<and> parseTimestamp E (field m ''clock'') (field m ''host'') = Inl err"
    by blast
qed

theorem missing_group_reads_undefined_witness:
  "''event'' \<notin> set (names host_clock)
   \<and> (\<exists>X. ExecutionParser browser ''a {\"a\":1}'' (Str []) host_clock = Some (Inr X)
          \<and> map event_text (logEvents X) = [Undefined]
          \<and> (\<forall>ev \<in> set (logEvents X). event_text ev = Undefined))
   \<and> (\<exists>P. LogParser browser ''a {\"a\":1}'' (Some trace_delimiter) host_clock = Some (Inr P)
          \<and> getLabels P = [Str []]
          \<and> (\<forall>k Y. executions P k = Some Y \<longrightarrow> (\<forall>ev \<in> set (logEvents Y). event_text ev = Undefined)))
   \<and> exec host_clock ''nothing'' 0 = None
   \<and> ExecutionParser browser ''nothing'' (Str []) host_clock =
        Some (Inr \<lparr>rawString = ''nothing'', label = Str [], timestamps = [], logEvents = []\<rparr>)
   \<and> exec host_clock (trim ''nothing'') 0 = None
   \<and> map_option (map_sum id (\<lambda>P. (getLabels P, getLogEvents P (Str []))))
        (LogParser browser ''nothing'' None host_clock) = Some (Inr ([Str []], JEvents []))
   \<and> ExecutionParser browser ''a {bad'' (Str []) host_clock = Some (Inl (ReferenceError ''line''))
   \<and> (\<exists>m i n caps. i \<le> length ''a {bad'' \<and> match_at host_clock ''a {bad'' i = Some (n, caps)
          \<and> m = \<lparr>index = i, matched = n, props = zip (names host_clock) caps\<rparr>
          \<and> parseTimestamp browser (field m ''clock'') (field m ''host'') = Inl (ReferenceError ''line''))
   \<and> map_option (map_sum id getLabels) (LogParser browser ''a {bad'' None host_clock)
        = Some (Inl (ReferenceError ''line''))
   \<and> (\<exists>seg m i n caps. seg \<in> set [trim ''a {bad'']
          \<and> i \<le> length seg \<and> match_at host_clock seg i = Some (n, caps)
          \<and> m = \<lparr>index = i, matched = n, props = zip (names host_clock) caps\<rparr>
          \<and> parseTimestamp browser (field m ''clock'') (field m ''host'') = Inl (ReferenceError ''line''))"
proof -
  have n: "''event'' \<notin> set (names host_clock)" by (simp add: host_clock_def)
  have "map_option (map_sum id (\<lambda>X. map event_text (logEvents X)))
          (ExecutionParser browser ''a {\"a\":1}'' (Str []) host_clock) = Some (Inr [Undefined])"
    by code_simp
  from map_option_sum_Inr [OF this]
  obtain X where X: "ExecutionParser browser ''a {\"a\":1}'' (Str []) host_clock = Some (Inr X)"
    and t: "map event_text (logEvents X) = [Undefined]"
    by (elim exE conjE) (rule that)
  have "map_option (map_sum id getLabels)
          (LogParser browser ''a {\"a\":1}'' (Some trace_delimiter) host_clock) = Some (Inr [Str []])"
    by code_simp
  from map_option_sum_Inr [OF this]
  obtain P where P: "LogParser browser ''a {\"a\":1}'' (Some trace_delimiter) host_clock = Some (Inr P)"
    and gl: "getLabels P = [Str []]"
    by (elim exE conjE) (rule that)
  have z: "exec host_clock ''nothing'' 0 = None" by code_simp
  have z': "exec host_clock (trim ''nothing'') 0 = None" by code_simp
  have b: "ExecutionParser browser ''a {bad'' (Str []) host_clock = Some (Inl (ReferenceError ''line''))"
    by code_simp
  have c: "map_option (map_sum id getLabels) (LogParser browser ''a {bad'' None host_clock)
        = Some (Inl (ReferenceError ''line''))"
    by code_simp
  then have c': "LogParser browser ''a {bad'' None host_clock = Some (Inl (ReferenceError ''line''))"
    by (cases "LogParser browser ''a {bad'' None host_clock";
        cases "the (LogParser browser ''a {bad'' None host_clock)") auto
  note th1 = missing_group_reads_undefined [of host_clock "''a {\"a\":1}''" browser "Str []" X
      "Some trace_delimiter" P]
  from th1 n X have 1: "\<forall>ev \<in> set (logEvents X). event_text ev = Undefined" by blast
  from th1 n P
  have 2: "\<forall>k Y. executions P k = Some Y \<longrightarrow> (\<forall>ev \<in> set (logEvents Y). event_text ev = Undefined)"
    by blast
  note th2 = missing_group_reads_undefined [of host_clock "''nothing''" browser "Str []"]
  from th2 z
  have 3: "ExecutionParser browser ''nothing'' (Str []) host_clock =
        Some (Inr \<lparr>rawString = ''nothing'', label = Str [], timestamps = [], logEvents = []\<rparr>)"
    by blast
  from th2 z'
  have "LogParser browser ''nothing'' None host_clock =
          Some (Inr \<lparr>trimmed = trim ''nothing'', labels = [Str []],
                     executions = [[] \<mapsto> \<lparr>rawString = trim ''nothing'', label = Str [],
                                               timestamps = [], logEvents = []\<rparr>]\<rparr>)"
    by blast
  then have 4: "map_option (map_sum id (\<lambda>P. (getLabels P, getLogEvents P (Str []))))
        (LogParser browser ''nothing'' None host_clock) = Some (Inr ([Str []], JEvents []))"
    by (simp add: getLabels_def getLogEvents_def ToString_def)
  note th3 = missing_group_reads_undefined [of host_clock "''a {bad''" browser "Str []" _ None _
      "ReferenceError ''line''"]
  from th3 b
  have 5: "\<exists>m i n caps. i \<le> length ''a {bad'' \<and> match_at host_clock ''a {bad'' i = Some (n, caps)
          \<and> m = \<lparr>index = i, matched = n, props = zip (names host_clock) caps\<rparr>
          \<and> parseTimestamp browser (field m ''clock'') (field m ''host'') = Inl (ReferenceError ''line'')"
    by blast
  from th3 c'
  have 6: "\<exists>seg m i n caps. seg \<in> set [trim ''a {bad'']
          \<and> i \<le> length seg \<and> match_at host_clock seg i = Some (n, caps)
          \<and> m = \<lparr>index = i, matched = n, props = zip (names host_clock) caps\<rparr>
          \<and> parseTimestamp browser (field m ''clock'') (field m ''host'') = Inl (ReferenceError ''line'')"
    by simp blast
  from X t 1 have ex1: "\<exists>X. ExecutionParser browser ''a {\"a\":1}'' (Str []) host_clock = Some (Inr X)
          \<and> map event_text (logEvents X) = [Undefined]
          \<and> (\<forall>ev \<in> set (logEvents X). event_text ev = Undefined)"
    by (intro exI [of _ X] conjI)
  from P gl 2 have ex2: "\<exists>P. LogParser browser ''a {\"a\":1}'' (Some trace_delimiter) host_clock = Some (Inr P)
          \<and> getLabels P = [Str []]
          \<and> (\<forall>k Y. executions P k = Some Y \<longrightarrow> (\<forall>ev \<in> set (logEvents Y). event_text ev = Undefined))"
    by (intro exI [of _ P] conjI)
  from n ex1 ex2 z 3 z' 4 b 5 c 6 show ?thesis
    by (intro conjI)
qed

text \<open>
  The claim as stated fails: with the pattern \<open>(?<host>\S+) (?<clock>\S+)\<close>, which has
  no \<open>event\<close> group, the constructor returns a parser, and the one event it has parsed
  has the text \<open>undefined\<close>.
\<close>

theorem missing_event_group_counterexample:
  "''event'' \<notin> set (names host_clock)
   \<and> map_option (map_sum id (\<lambda>P. (getLabels P, getLogEvents P (Str []))))
       (LogParser browser ''a {\"a\":1}'' None host_clock)
     = Some (Inr ([Str []],
          JEvents [\<lparr>event_text = Undefined, vectorTimestamp = ([(''a'', 1)], Str ''a''),
                     lineNum = 1, event_fields = []\<rparr>]))"
  by code_simp

section \<open>Properties of the timestamps\<close>

lemma map_of_raised:
  "map_of (map (\<lambda>(h, x). (h, f h x)) xs) k = map_option (f k) (map_of xs k)"
  by (induction xs) auto

lemma map_of_lacking:
  "map_of (filter (\<lambda>(h, y). Q h) ys) k = (if Q k then map_of ys k else None)"
  by (induction ys) auto

lemma map_of_update:
  "map_of (clock (update a b)) h =
     (case map_of (clock a) h of
        None \<Rightarrow> map_of (clock b) h
      | Some x \<Rightarrow> (case map_of (clock b) h of None \<Rightarrow> Some x | Some y \<Rightarrow> Some (max x y)))"
  by (simp add: update_def map_add_def map_of_raised map_of_lacking split: option.splits)

text \<open>
  Claim C8. For valid clock texts the two merges \<open>parse(C1).update(parse(C2))\<close> and
  \<open>parse(C2).update(parse(C1))\<close> have the same mapping from hosts to counts (for any
  host sets, so also for equal ones), and the owner of \<open>a.update(b)\<close> is the owner of
  \<open>a\<close>.
\<close>

theorem update_commutes:
  assumes "parse c1 h1 = Inr a" and "parse c2 h2 = Inr b"
  shows "map_of (clock (update a b)) = map_of (clock (update b a)) \<and> owner (update a b) = owner a"
proof -
  have "map_of (clock (update a b)) h = map_of (clock (update b a)) h" for h
    by (simp add: map_of_update max.commute split: option.splits)
  then have "map_of (clock (update a b)) = map_of (clock (update b a))" by (rule ext)
  then show ?thesis by (simp add: update_def)
qed

theorem update_commutes_witness:
  "parse ''{\"A\":1,\"B\":4}'' ''A'' = Inr \<lparr>clock = [(''A'', 1), (''B'', 4)], owner = ''A''\<rparr>
   \<and> parse ''{\"B\":2,\"A\":3}'' ''B'' = Inr \<lparr>clock = [(''B'', 2), (''A'', 3)], owner = ''B''\<rparr>
   \<and> clock (update \<lparr>clock = [(''A'', 1), (''B'', 4)], owner = ''A''\<rparr>
                    \<lparr>clock = [(''B'', 2), (''A'', 3)], owner = ''B''\<rparr>) = [(''A'', 3), (''B'', 4)]
   \<and> clock (update \<lparr>clock = [(''B'', 2), (''A'', 3)], owner = ''B''\<rparr>
                    \<lparr>clock = [(''A'', 1), (''B'', 4)], owner = ''A''\<rparr>) = [(''B'', 4), (''A'', 3)]
   \<and> map_of (clock (update \<lparr>clock = [(''A'', 1), (''B'', 4)], owner = ''A''\<rparr>
                    \<lparr>clock = [(''B'', 2), (''A'', 3)], owner = ''B''\<rparr>))
     = map_of (clock (update \<lparr>clock = [(''B'', 2), (''A'', 3)], owner = ''B''\<rparr>
                    \<lparr>clock = [(''A'', 1), (''B'', 4)], owner = ''A''\<rparr>))
   \<and> owner (update \<lparr>clock = [(''A'', 1), (''B'', 4)], owner = ''A''\<rparr>
                    \<lparr>clock = [(''B'', 2), (''A'', 3)], owner = ''B''\<rparr>) = ''A''"
proof -
  have p1: "parse ''{\"A\":1,\"B\":4}'' ''A'' = Inr \<lparr>clock = [(''A'', 1), (''B'', 4)], owner = ''A''\<rparr>"
    by code_simp
  have p2: "parse ''{\"B\":2,\"A\":3}'' ''B'' = Inr \<lparr>clock = [(''B'', 2), (''A'', 3)], owner = ''B''\<rparr>"
    by code_simp
  have u1: "clock (update \<lparr>clock = [(''A'', 1), (''B'', 4)], owner = ''A''\<rparr>
                    \<lparr>clock = [(''B'', 2), (''A'', 3)], owner = ''B''\<rparr>) = [(''A'', 3), (''B'', 4)]"
    by code_simp
  have u2: "clock (update \<lparr>clock = [(''B'', 2), (''A'', 3)], owner = ''B''\<rparr>
                    \<lparr>clock = [(''A'', 1), (''B'', 4)], owner = ''A''\<rparr>) = [(''B'', 4), (''A'', 3)]"
    by code_simp
  note t = update_commutes [OF p1 p2]
  from t have m: "map_of (clock (update \<lparr>clock = [(''A'', 1), (''B'', 4)], owner = ''A''\<rparr>
                    \<lparr>clock = [(''B'', 2), (''A'', 3)], owner = ''B''\<rparr>))
     = map_of (clock (update \<lparr>clock = [(''B'', 2), (''A'', 3)], owner = ''B''\<rparr>
                    \<lparr>clock = [(''A'', 1), (''B'', 4)], owner = ''A''\<rparr>))"
    by (rule conjunct1)
  from t have "owner (update \<lparr>clock = [(''A'', 1), (''B'', 4)], owner = ''A''\<rparr>
                    \<lparr>clock = [(''B'', 2), (''A'', 3)], owner = ''B''\<rparr>)
      = owner \<lparr>clock = [(''A'', 1), (''B'', 4)], owner = ''A''\<rparr>"
    by (rule conjunct2)
  then have o: "owner (update \<lparr>clock = [(''A'', 1), (''B'', 4)], owner = ''A''\<rparr>
                    \<lparr>clock = [(''B'', 2), (''A'', 3)], owner = ''B''\<rparr>) = ''A''"
    by simp
  from p1 p2 u1 u2 m o show ?thesis by (intro conjI)
qed

section \<open>Properties of the motif finder\<close>

lemma chain_subset: "set (chain cs h) \<subseteq> set (concat (map snd cs))"
proof
  fix x assume "x \<in> set (chain cs h)"
  then obtain ns where "map_of cs h = Some ns" "x \<in> set ns"
    by (cases "map_of cs h") (auto simp: chain_def)
  then have "(h, ns) \<in> set cs" "x \<in> set ns" by (auto dest: map_of_SomeD)
  then show "x \<in> set (concat (map snd cs))" by force
qed

lemma chain_member:
  "distinct (map fst cs) \<Longrightarrow> (h, ns) \<in> set cs \<Longrightarrow> chain cs h = ns"
  by (simp add: chain_def)

lemma unique_host:
  "distinct (map fst cs) \<Longrightarrow> distinct (concat (map snd cs)) \<Longrightarrow>
     a \<in> set (chain cs h) \<Longrightarrow> a \<in> set (chain cs h') \<Longrightarrow> h = h'"
proof (induction cs)
  case Nil
  then show ?case by (simp add: chain_def)
next
  case (Cons c cs)
  obtain k ns where c: "c = (k, ns)" by (cases c)
  have rest: "chain (c # cs) x = chain cs x" if "x \<noteq> k" for x
    using that by (simp add: chain_def c)
  have here: "chain (c # cs) k = ns" by (simp add: chain_def c)
  from Cons.prems(2) have disj: "set ns \<inter> set (concat (map snd cs)) = {}"
    and d: "distinct (concat (map snd cs))" by (auto simp: c)
  from Cons.prems(1) have dk: "distinct (map fst cs)" by simp
  show ?case
  proof (cases "h = k")
    case True
    show ?thesis
    proof (cases "h' = k")
      case True
      with \<open>h = k\<close> show ?thesis by simp
    next
      case False
      from Cons.prems(3) True here have "a \<in> set ns" by simp
      moreover from Cons.prems(4) rest [OF False] chain_subset [of cs h']
      have "a \<in> set (concat (map snd cs))" by auto
      ultimately show ?thesis using disj by auto
    qed
  next
    case False
    show ?thesis
    proof (cases "h' = k")
      case True
      from Cons.prems(4) True here have "a \<in> set ns" by simp
      moreover from Cons.prems(3) rest [OF False] chain_subset [of cs h]
      have "a \<in> set (concat (map snd cs))" by auto
      ultimately show ?thesis using disj by auto
    next
      case h': False
      from Cons.prems(3,4) rest [OF False] rest [OF h']
      have "a \<in> set (chain cs h)" "a \<in> set (chain cs h')" by simp_all
      with Cons.IH [OF dk d] show ?thesis by simp
    qed
  qed
qed

text \<open>What the search returns is consistent, if what it started from was.\<close>

lemma align_consistent:
  "align g p us rs hs asg = Some m \<Longrightarrow> consistent g p asg \<Longrightarrow> consistent g p m"
proof (induction g p us rs hs asg rule: align.induct)
  case (1 g p rs asg)
  then show ?case by simp
next
  case (2 g p rs h us hs asg)
  then show ?case by simp
next
  case (3 g p u us hs asg)
  then show ?case by simp
next
  case (4 g p u us r rs hs asg)
  show ?case
  proof (cases "consistent g p ((u, r) # asg)")
    case True
    show ?thesis
    proof (cases "align g p us rs hs ((u, r) # asg)")
      case None
      with True "4.prems" have "align g p (u # us) rs hs asg = Some m" by simp
      from "4.IH"(2) [OF True None this "4.prems"(2)] show ?thesis .
    next
      case (Some m')
      with True "4.prems" have "m' = m" by simp
      with Some "4.IH"(1) [OF True _ True] show ?thesis by simp
    qed
  next
    case False
    with "4.prems" have "align g p (u # us) rs hs asg = Some m" by simp
    from "4.IH"(3) [OF False this "4.prems"(2)] show ?thesis .
  qed
qed

text \<open>It maps every pattern node that was still to be mapped, and keeps what was mapped.\<close>

lemma align_total:
  "align g p us rs hs asg = Some m \<Longrightarrow>
     set us \<union> set (concat (map snd hs)) \<union> fst ` set asg \<subseteq> fst ` set m"
proof (induction g p us rs hs asg rule: align.induct)
  case (1 g p rs asg)
  then show ?case by simp
next
  case (2 g p rs h us hs asg)
  then show ?case by auto
next
  case (3 g p u us hs asg)
  then show ?case by simp
next
  case (4 g p u us r rs hs asg)
  show ?case
  proof (cases "consistent g p ((u, r) # asg)")
    case True
    show ?thesis
    proof (cases "align g p us rs hs ((u, r) # asg)")
      case None
      with True "4.prems" have "align g p (u # us) rs hs asg = Some m" by simp
      from "4.IH"(2) [OF True None this] show ?thesis .
    next
      case (Some m')
      with True "4.prems" have "m' = m" by simp
      with Some "4.IH"(1) [OF True] show ?thesis by auto
    qed
  next
    case False
    with "4.prems" have "align g p (u # us) rs hs asg = Some m" by simp
    from "4.IH"(3) [OF False this] show ?thesis .
  qed
qed

lemma align_same_host:
  "align g p us rs hs asg = Some m \<Longrightarrow> same_host g p asg \<Longrightarrow>
     (\<exists>h. set us \<subseteq> set (chain (bchains p) h) \<and> set rs \<subseteq> set (chain (chains g) h)) \<Longrightarrow>
     (\<forall>(h, ns) \<in> set hs. chain (bchains p) h = ns) \<Longrightarrow> same_host g p m"
proof (induction g p us rs hs asg rule: align.induct)
  case (1 g p rs asg)
  then show ?case by simp
next
  case (2 g p rs h us hs asg)
  from "2.prems"(4) have "set us \<subseteq> set (chain (bchains p) h)
      \<and> set (chain (chains g) h) \<subseteq> set (chain (chains g) h)" by simp
  then have "\<exists>h'. set us \<subseteq> set (chain (bchains p) h')
      \<and> set (chain (chains g) h) \<subseteq> set (chain (chains g) h')" ..
  moreover from "2.prems"(4) have "\<forall>(h, ns) \<in> set hs. chain (bchains p) h = ns" by simp
  moreover from "2.prems"(1) have "align g p us (chain (chains g) h) hs asg = Some m" by simp
  ultimately show ?case using "2.prems"(2) by (intro "2.IH")
next
  case (3 g p u us hs asg)
  then show ?case by simp
next
  case (4 g p u us r rs hs asg)
  from "4.prems"(3) obtain h where h: "set (u # us) \<subseteq> set (chain (bchains p) h)"
    "set (r # rs) \<subseteq> set (chain (chains g) h)" by blast
  then have less: "\<exists>h. set (u # us) \<subseteq> set (chain (bchains p) h) \<and> set rs \<subseteq> set (chain (chains g) h)"
    and fewer: "\<exists>h. set us \<subseteq> set (chain (bchains p) h) \<and> set rs \<subseteq> set (chain (chains g) h)"
    by auto
  from h "4.prems"(2) have ext: "same_host g p ((u, r) # asg)"
    by (auto simp: same_host_def)
  show ?case
  proof (cases "consistent g p ((u, r) # asg)")
    case True
    show ?thesis
    proof (cases "align g p us rs hs ((u, r) # asg)")
      case None
      with True "4.prems" have "align g p (u # us) rs hs asg = Some m" by simp
      from "4.IH"(2) [OF True None this "4.prems"(2) less "4.prems"(4)] show ?thesis .
    next
      case (Some m')
      with True "4.prems" have "m' = m" by simp
      with Some "4.IH"(1) [OF True _ ext fewer "4.prems"(4)] show ?thesis by simp
    qed
  next
    case False
    with "4.prems" have "align g p (u # us) rs hs asg = Some m" by simp
    from "4.IH"(3) [OF False this "4.prems"(2) less "4.prems"(4)] show ?thesis .
  qed
qed

lemma consistent_edge:
  "consistent g p m \<Longrightarrow> (a, b) \<in> set (bedges p) \<Longrightarrow> map_of m a = Some x \<Longrightarrow> map_of m b = Some y \<Longrightarrow>
     reaches g x y"
  by (auto simp: consistent_def list_all_iff)

lemma mapped: "a \<in> fst ` set m \<Longrightarrow> \<exists>x. map_of m a = Some x \<and> (a, x) \<in> set m"
  by (cases "map_of m a") (auto simp: map_of_eq_None_iff dest: map_of_SomeD)

lemma map_filter_all_Some:
  "\<forall>x \<in> set xs. F x = Some (G x) \<Longrightarrow> List.map_filter F xs = map G xs"
  by (induction xs) (simp_all add: map_filter_simps)

text \<open>The search reads the chains and the edges of the causality graph only.\<close>

lemma reaches_stamps: "reaches (g\<lparr>stamps := s\<rparr>) = reaches g"
  by (simp add: reaches_def fun_eq_iff)

lemma consistent_stamps: "consistent (g\<lparr>stamps := s\<rparr>) p asg = consistent g p asg"
  by (simp add: consistent_def reaches_stamps cong: option.case_cong)

lemma align_stamps: "align (g\<lparr>stamps := s\<rparr>) p us rs hs asg = align g p us rs hs asg"
proof (induction g p us rs hs asg rule: align.induct)
  case (1 g p rs asg)
  then show ?case by simp
next
  case (2 g p rs h us hs asg)
  then show ?case by simp
next
  case (3 g p u us hs asg)
  then show ?case by simp
next
  case (4 g p u us r rs hs asg)
  show ?case
  proof (cases "consistent g p ((u, r) # asg)")
    case True
    show ?thesis
    proof (cases "align g p us rs hs ((u, r) # asg)")
      case None
      with True "4.IH"(1) [OF True] "4.IH"(2) [OF True None] show ?thesis
        by (simp add: consistent_stamps)
    next
      case (Some m')
      with True "4.IH"(1) [OF True] show ?thesis
        by (simp add: consistent_stamps)
    qed
  next
    case False
    with "4.IH"(3) [OF False] show ?thesis by (simp add: consistent_stamps)
  qed
qed

lemma find_stamps: "MotifFinder_find (g\<lparr>stamps := s\<rparr>) p = MotifFinder_find g p"
  by (simp add: MotifFinder_find_def align_stamps)

text \<open>
  A match comes from a mapping of the pattern nodes: every pattern node is mapped to a
  matched node of the chain of its own host, the matched edges are the images of the
  pattern edges, and the image of every pattern edge is related by reachability.
\<close>

lemma find_Inr:
  assumes "MotifFinder_find g p = Inr M"
  shows "\<exists>f. matchedEdges M = map (\<lambda>(a, b). (f a, f b)) (bedges p)
           \<and> (\<forall>h. \<forall>u \<in> set (chain (bchains p) h).
                 f u \<in> set (chain (chains g) h) \<and> f u \<in> set (matchedNodeIds M))
           \<and> (\<forall>(a, b) \<in> set (bedges p). reaches g (f a) (f b))"
proof -
  from assms have w: "well_shaped p"
    by (auto simp: MotifFinder_find_def split: if_splits)
  with assms obtain m where Some: "align g p [] [] (bchains p) [] = Some m"
    and M: "M = \<lparr>matchedNodeIds = map snd m,
                 matchedEdges =
                   List.map_filter
                     (\<lambda>(a, b). case map_of m a of
                                  None \<Rightarrow> None
                                | Some x \<Rightarrow> map_option (Pair x) (map_of m b))
                     (bedges p)\<rparr>"
    by (auto simp: MotifFinder_find_def split: option.splits)
  define f where "f u = the (map_of m u)" for u
  from w have dh: "distinct (map fst (bchains p))"
    and dn: "distinct (concat (map snd (bchains p)))"
    by (simp_all add: well_shaped_def pattern_nodes_def)
  from w have ed: "a \<in> set (pattern_nodes p) \<and> b \<in> set (pattern_nodes p)"
    if "(a, b) \<in> set (bedges p)" for a b
    using that by (auto simp: well_shaped_def list_all_iff)
  have c: "consistent g p m"
    using Some by (rule align_consistent) (simp add: consistent_def list_all_iff)
  have "\<forall>(h, ns) \<in> set (bchains p). chain (bchains p) h = ns"
    using dh by (auto simp: chain_member)
  then have s: "same_host g p m"
    using Some by (intro align_same_host [OF Some]) (simp_all add: same_host_def)
  from align_total [OF Some] have t: "set (pattern_nodes p) \<subseteq> fst ` set m"
    by (simp add: pattern_nodes_def)
  have node: "map_of m u = Some (f u) \<and> (u, f u) \<in> set m"
    if "u \<in> set (pattern_nodes p)" for u
  proof -
    from that t have "u \<in> fst ` set m" by blast
    then have "\<exists>x. map_of m u = Some x \<and> (u, x) \<in> set m" by (simp only: mapped)
    then show ?thesis by (auto simp: f_def)
  qed
  have 1: "matchedEdges M = map (\<lambda>(a, b). (f a, f b)) (bedges p)"
  proof -
    have "\<forall>e \<in> set (bedges p).
        (\<lambda>(a, b). case map_of m a of None \<Rightarrow> None
                   | Some x \<Rightarrow> map_option (Pair x) (map_of m b)) e
        = Some ((\<lambda>(a, b). (f a, f b)) e)"
    proof
      fix e assume e: "e \<in> set (bedges p)"
      obtain a b where ab: "e = (a, b)" by (cases e)
      from e ab have "(a, b) \<in> set (bedges p)" by simp
      from ed [OF this] node [of a] node [of b]
      have "map_of m a = Some (f a)" "map_of m b = Some (f b)" by simp_all
      with ab show "(\<lambda>(a, b). case map_of m a of None \<Rightarrow> None
                   | Some x \<Rightarrow> map_option (Pair x) (map_of m b)) e
        = Some ((\<lambda>(a, b). (f a, f b)) e)"
        by simp
    qed
    from map_filter_all_Some [OF this] M show ?thesis by simp
  qed
  have 2: "f u \<in> set (chain (chains g) h) \<and> f u \<in> set (matchedNodeIds M)"
    if u: "u \<in> set (chain (bchains p) h)" for u h
  proof -
    from u chain_subset [of "bchains p" h] have "u \<in> set (pattern_nodes p)"
      unfolding pattern_nodes_def by blast
    from node [OF this] have in_m: "(u, f u) \<in> set m" by simp
    with s obtain h' where h': "u \<in> set (chain (bchains p) h')" "f u \<in> set (chain (chains g) h')"
      by (auto simp: same_host_def)
    from unique_host [OF dh dn h'(1) u] have "h' = h" .
    with h'(2) in_m M show ?thesis by force
  qed
  have 3: "reaches g (f a) (f b)" if e: "(a, b) \<in> set (bedges p)" for a b
  proof -
    from ed [OF e] node [of a] node [of b]
    have "map_of m a = Some (f a)" "map_of m b = Some (f b)" by simp_all
    from consistent_edge [OF c e this] show ?thesis .
  qed
  from 1 2 3 show ?thesis by (intro exI [of _ f]) auto
qed

text \<open>With the edge from node 1 to node 3 the pattern is found.\<close>

lemma linked_match:
  "MotifFinder_find linked send_receive = Inr \<lparr>matchedNodeIds = [3, 1], matchedEdges = [(1, 3)]\<rparr>"
  by code_simp

text \<open>
  Claim C9. When a well-shaped pattern has an edge from a node of one host to a node of
  another host, and in the causality graph no node of the first host reaches any node of
  the second host along the edges, \<open>find\<close> fails with \<open>NoMatchError\<close>. A match that
  \<open>find\<close> returns comes from a mapping of the pattern nodes to matched nodes of the chain
  of the same host under which the two ends of every pattern edge are related by the
  reachability of the causality graph, from ancestor to descendant, and the matched edges
  are the images of the pattern edges. The vector timestamps of the nodes play no part:
  \<open>find\<close> returns the same with any other timestamps.
\<close>

theorem unreachable_hosts_no_match:
  "(well_shaped p \<and> (a, b) \<in> set (bedges p)
      \<and> a \<in> set (chain (bchains p) h1) \<and> b \<in> set (chain (bchains p) h2) \<and> h1 \<noteq> h2
      \<and> (\<forall>x \<in> set (chain (chains g) h1). \<forall>y \<in> set (chain (chains g) h2). \<not> reaches g x y)
      \<longrightarrow> MotifFinder_find g p = Inl NoMatchError)
   \<and> (MotifFinder_find g p = Inr M \<longrightarrow>
        (\<exists>f. matchedEdges M = map (\<lambda>(a, b). (f a, f b)) (bedges p)
           \<and> (\<forall>h. \<forall>u \<in> set (chain (bchains p) h).
                 f u \<in> set (chain (chains g) h) \<and> f u \<in> set (matchedNodeIds M))
           \<and> (\<forall>(a, b) \<in> set (bedges p). reaches g (f a) (f b))))
   \<and> MotifFinder_find (g\<lparr>stamps := s\<rparr>) p = MotifFinder_find g p"
proof (intro conjI impI)
  assume a: "well_shaped p \<and> (a, b) \<in> set (bedges p)
      \<and> a \<in> set (chain (bchains p) h1) \<and> b \<in> set (chain (bchains p) h2) \<and> h1 \<noteq> h2
      \<and> (\<forall>x \<in> set (chain (chains g) h1). \<forall>y \<in> set (chain (chains g) h2). \<not> reaches g x y)"
  show "MotifFinder_find g p = Inl NoMatchError"
  proof (cases "MotifFinder_find g p")
    case (Inl e)
    with a show ?thesis
      by (cases e) (auto simp: MotifFinder_find_def split: if_splits option.splits)
  next
    case (Inr M')
    from find_Inr [OF this] obtain f where
      n: "\<forall>h. \<forall>u \<in> set (chain (bchains p) h). f u \<in> set (chain (chains g) h)"
      and r: "\<forall>(a, b) \<in> set (bedges p). reaches g (f a) (f b)"
      by blast
    from a n have "f a \<in> set (chain (chains g) h1)" "f b \<in> set (chain (chains g) h2)" by blast+
    moreover from a r have "reaches g (f a) (f b)" by blast
    ultimately show ?thesis using a by blast
  qed
next
  assume "MotifFinder_find g p = Inr M"
  then show "\<exists>f. matchedEdges M = map (\<lambda>(a, b). (f a, f b)) (bedges p)
           \<and> (\<forall>h. \<forall>u \<in> set (chain (bchains p) h).
                 f u \<in> set (chain (chains g) h) \<and> f u \<in> set (matchedNodeIds M))
           \<and> (\<forall>(a, b) \<in> set (bedges p). reaches g (f a) (f b))"
    by (rule find_Inr)
next
  show "MotifFinder_find (g\<lparr>stamps := s\<rparr>) p = MotifFinder_find g p"
    by (rule find_stamps)
qed

theorem unreachable_hosts_no_match_witness:
  "well_shaped send_receive \<and> (10, 11) \<in> set (bedges send_receive)
   \<and> 10 \<in> set (chain (bchains send_receive) ''A'') \<and> 11 \<in> set (chain (bchains send_receive) ''B'')
   \<and> ''A'' \<noteq> ''B''
   \<and> list_all (\<lambda>x. list_all (\<lambda>y. \<not> reaches unlinked x y) (chain (chains unlinked) ''B''))
        (chain (chains unlinked) ''A'')
   \<and> map_option (\<lambda>t. compare t \<lparr>clock = [(''A'', 1), (''B'', 1)], owner = ''B''\<rparr>)
        (map_of (stamps unlinked) 1) = Some LESS
   \<and> map_of (stamps unlinked) 3 = Some \<lparr>clock = [(''A'', 1), (''B'', 1)], owner = ''B''\<rparr>
   \<and> MotifFinder_find unlinked send_receive = Inl NoMatchError
   \<and> list_all (\<lambda>x. list_all (\<lambda>y. \<not> reaches reversed x y) (chain (chains reversed) ''B''))
        (chain (chains reversed) ''A'')
   \<and> reaches reversed 3 1
   \<and> MotifFinder_find reversed send_receive = Inl NoMatchError
   \<and> MotifFinder_find linked send_receive = Inr \<lparr>matchedNodeIds = [3, 1], matchedEdges = [(1, 3)]\<rparr>
   \<and> (\<exists>f. [(1, 3)] = map (\<lambda>(a, b). (f a, f b)) (bedges send_receive)
         \<and> f 10 \<in> set (chain (chains linked) ''A'') \<and> f 11 \<in> set (chain (chains linked) ''B'')
         \<and> reaches linked (f 10) (f 11))
   \<and> reaches linked 1 3
   \<and> MotifFinder_find (linked\<lparr>stamps := []\<rparr>) send_receive
       = Inr \<lparr>matchedNodeIds = [3, 1], matchedEdges = [(1, 3)]\<rparr>"
proof -
  have w: "well_shaped send_receive" by code_simp
  have e: "(10, 11) \<in> set (bedges send_receive)" by code_simp
  have a: "10 \<in> set (chain (bchains send_receive) ''A'')" by code_simp
  have b: "11 \<in> set (chain (bchains send_receive) ''B'')" by code_simp
  have h: "''A'' \<noteq> ''B''" by simp
  have n: "list_all (\<lambda>x. list_all (\<lambda>y. \<not> reaches unlinked x y) (chain (chains unlinked) ''B''))
        (chain (chains unlinked) ''A'')" by code_simp
  have n': "list_all (\<lambda>x. list_all (\<lambda>y. \<not> reaches reversed x y) (chain (chains reversed) ''B''))
        (chain (chains reversed) ''A'')" by code_simp
  have r': "reaches reversed 3 1" by code_simp
  have t1: "map_option (\<lambda>t. compare t \<lparr>clock = [(''A'', 1), (''B'', 1)], owner = ''B''\<rparr>)
        (map_of (stamps unlinked) 1) = Some LESS" by code_simp
  have t3: "map_of (stamps unlinked) 3 = Some \<lparr>clock = [(''A'', 1), (''B'', 1)], owner = ''B''\<rparr>"
    by code_simp
  have l: "MotifFinder_find linked send_receive = Inr \<lparr>matchedNodeIds = [3, 1], matchedEdges = [(1, 3)]\<rparr>"
    by (rule linked_match)
  from n have u: "\<forall>x \<in> set (chain (chains unlinked) ''A'').
      \<forall>y \<in> set (chain (chains unlinked) ''B''). \<not> reaches unlinked x y"
    by (simp add: list_all_iff)
  from n' have u': "\<forall>x \<in> set (chain (chains reversed) ''A'').
      \<forall>y \<in> set (chain (chains reversed) ''B''). \<not> reaches reversed x y"
    by (simp add: list_all_iff)
  from unreachable_hosts_no_match [where p = send_receive and g = unlinked and a = 10 and b = 11
      and ?h1.0 = "''A''" and ?h2.0 = "''B''"] w e a b h u
  have 1: "MotifFinder_find unlinked send_receive = Inl NoMatchError" by blast
  from unreachable_hosts_no_match [where p = send_receive and g = reversed and a = 10 and b = 11
      and ?h1.0 = "''A''" and ?h2.0 = "''B''"] w e a b h u'
  have 2: "MotifFinder_find reversed send_receive = Inl NoMatchError" by blast
  note th = unreachable_hosts_no_match [where p = send_receive and g = linked
      and M = "\<lparr>matchedNodeIds = [3, 1], matchedEdges = [(1, 3)]\<rparr>" and s = "[]"]
  from th l obtain f where f: "matchedEdges \<lparr>matchedNodeIds = [3, 1], matchedEdges = [(1, 3)]\<rparr>
        = map (\<lambda>(a, b). (f a, f b)) (bedges send_receive)"
    and fn: "\<forall>h. \<forall>u \<in> set (chain (bchains send_receive) h). f u \<in> set (chain (chains linked) h)"
    and fr: "\<forall>(a, b) \<in> set (bedges send_receive). reaches linked (f a) (f b)"
    by blast
  from f have f': "[(1, 3)] = map (\<lambda>(a, b). (f a, f b)) (bedges send_receive)" by simp
  from fn a b have fa: "f 10 \<in> set (chain (chains linked) ''A'')"
    and fb: "f 11 \<in> set (chain (chains linked) ''B'')" by blast+
  from fr e have fab: "reaches linked (f 10) (f 11)" by blast
  from f' have "f 10 = 1" "f 11 = 3" by (simp_all add: send_receive_def)
  with fab have 3: "reaches linked 1 3" by simp
  from f' fa fb fab have 4: "\<exists>f. [(1, 3)] = map (\<lambda>(a, b). (f a, f b)) (bedges send_receive)
         \<and> f 10 \<in> set (chain (chains linked) ''A'') \<and> f 11 \<in> set (chain (chains linked) ''B'')
         \<and> reaches linked (f 10) (f 11)"
    by (intro exI [of _ f] conjI)
  from th l have 5: "MotifFinder_find (linked\<lparr>stamps := []\<rparr>) send_receive
       = Inr \<lparr>matchedNodeIds = [3, 1], matchedEdges = [(1, 3)]\<rparr>"
    by simp
  from w e a b h n t1 t3 1 n' r' 2 l 4 3 5 show ?thesis
    by (intro conjI)
qed


section \<open>Properties of the host list\<close>

lemma clear_loop_hosts: "hosts (clear_loop g) = []"
proof (induction g rule: clear_loop.induct)
  case (1 g)
  show ?case
  proof (cases "length (hosts g) > 0")
    case True
    with 1 show ?thesis by (subst clear_loop.simps) simp
  next
    case False
    then show ?thesis by (subst clear_loop.simps) simp
  qed
qed

lemma addHost_length_le:
  "length (hosts g) \<le> MAX_HOSTS \<Longrightarrow> length (hosts (snd (addHost g))) \<le> MAX_HOSTS"
  by (simp add: addHost_def)

lemma clear_length: "length (hosts (snd (clear g))) = 2"
  by (simp add: clear_def addHost_def clear_loop_hosts MAX_HOSTS_def)

lemma step_length_le:
  "length (hosts g) \<le> MAX_HOSTS \<Longrightarrow> length (hosts (step g x)) \<le> MAX_HOSTS"
proof (cases x)
  case AddHost
  assume "length (hosts g) \<le> MAX_HOSTS"
  with AddHost show ?thesis by (simp add: addHost_length_le)
next
  case (RemoveHost h)
  assume "length (hosts g) \<le> MAX_HOSTS"
  moreover have "length (hosts (removeHost g h)) \<le> length (hosts g)"
    by (simp add: removeHost_def length_Array_remove_le)
  ultimately show ?thesis using RemoveHost by simp
next
  case Clear
  then show ?thesis by (simp add: clear_length MAX_HOSTS_def)
qed

lemma foldl_step_length_le:
  "length (hosts g) \<le> MAX_HOSTS \<Longrightarrow> length (hosts (foldl step g ops)) \<le> MAX_HOSTS"
  by (induction ops arbitrary: g) (simp_all add: step_length_le)

lemma GraphBuilder_new_hosts:
  "GraphBuilder_new = (None, \<lparr>hosts = [\<lparr>hid = 0, num = 0\<rparr>, \<lparr>hid = 1, num = 1\<rparr>], created = 2\<rparr>)"
  by (simp add: GraphBuilder_new_def addHost_def MAX_HOSTS_def)

text \<open>
  Claim C10. Whatever sequence of \<open>addHost\<close>, \<open>removeHost\<close> and \<open>clear\<close> calls
  follows the constructor, the builder never has more than \<open>MAX_HOSTS = 5\<close> hosts.
  On any builder with fewer than five hosts \<open>addHost\<close> throws nothing and appends
  exactly one host; on a builder with five hosts it throws an \<open>Exception\<close> and leaves
  the builder unchanged.
\<close>

theorem addHost_bounded:
  "length (hosts (run ops)) \<le> MAX_HOSTS \<and> MAX_HOSTS = 5
   \<and> (length (hosts g) < 5 \<longrightarrow>
        fst (addHost g) = None \<and> (\<exists>h. hosts (snd (addHost g)) = hosts g @ [h]))
   \<and> (length (hosts g) = 5 \<longrightarrow>
        (\<exists>m. fst (addHost g) = Some (Exception m)) \<and> snd (addHost g) = g)"
proof -
  have "length (hosts (snd GraphBuilder_new)) \<le> MAX_HOSTS"
    by (simp add: GraphBuilder_new_hosts MAX_HOSTS_def)
  then have inv: "length (hosts (run ops)) \<le> MAX_HOSTS"
    unfolding run_def by (rule foldl_step_length_le)
  have add: "length (hosts g) < 5 \<longrightarrow>
      fst (addHost g) = None \<and> (\<exists>h. hosts (snd (addHost g)) = hosts g @ [h])"
    by (simp add: addHost_def MAX_HOSTS_def)
  have full: "length (hosts g) = 5 \<longrightarrow>
      (\<exists>m. fst (addHost g) = Some (Exception m)) \<and> snd (addHost g) = g"
    by (simp add: addHost_def MAX_HOSTS_def)
  from inv add full show ?thesis
    by (simp only: MAX_HOSTS_def simp_thms)
qed

theorem addHost_bounded_witness:
  "length (hosts (run [AddHost, AddHost, AddHost, AddHost, RemoveHost \<lparr>hid = 7, num = 0\<rparr>, AddHost]))
     \<le> MAX_HOSTS
   \<and> length (hosts (run [AddHost])) < 5
   \<and> fst (addHost (run [AddHost])) = None
   \<and> hosts (snd (addHost (run [AddHost]))) = hosts (run [AddHost]) @ [\<lparr>hid = 3, num = 3\<rparr>]
   \<and> length (hosts (run [AddHost, AddHost, AddHost])) = 5
   \<and> snd (addHost (run [AddHost, AddHost, AddHost])) = run [AddHost, AddHost, AddHost]"
proof -
  have r1: "run [AddHost] =
      \<lparr>hosts = [\<lparr>hid = 0, num = 0\<rparr>, \<lparr>hid = 1, num = 1\<rparr>, \<lparr>hid = 2, num = 2\<rparr>], created = 3\<rparr>"
    by (simp add: run_def GraphBuilder_new_hosts addHost_def MAX_HOSTS_def)
  have few: "length (hosts (run [AddHost])) < 5"
    by (simp add: r1)
  have full: "length (hosts (run [AddHost, AddHost, AddHost])) = 5"
    by (simp add: run_def GraphBuilder_new_hosts addHost_def MAX_HOSTS_def)
  have new: "hosts (snd (addHost (run [AddHost]))) = hosts (run [AddHost]) @ [\<lparr>hid = 3, num = 3\<rparr>]"
    by (simp add: r1 addHost_def MAX_HOSTS_def)
  note small = addHost_bounded [of "[AddHost, AddHost, AddHost, AddHost, RemoveHost \<lparr>hid = 7, num = 0\<rparr>, AddHost]"
      "run [AddHost]"]
  note large = addHost_bounded [of "[]" "run [AddHost, AddHost, AddHost]"]
  from small have inv: "length (hosts (run [AddHost, AddHost, AddHost, AddHost,
      RemoveHost \<lparr>hid = 7, num = 0\<rparr>, AddHost])) \<le> MAX_HOSTS"
    by (rule conjunct1)
  from small few have none: "fst (addHost (run [AddHost])) = None"
    by blast
  from large full have same: "snd (addHost (run [AddHost, AddHost, AddHost])) = run [AddHost, AddHost, AddHost]"
    by blast
  from inv few none new full same show ?thesis
    by (intro conjI)
qed

end
